theory Spec2Isabelle
  imports Main "HOL-Library.AList" "HOL-Library.Multiset"
begin

section \<open>The Dart template of postgres-meta\<close>

text \<open>
  The repository holds two revisions of the Dart template:
  \<^verbatim>\<open>src/server/templates/dart.ts\<close> and an unnamed file, \<^verbatim>\<open>part_000\<close>. Functions
  that are the same text in both are embedded once. Where the two differ, each revision
  has its own definition, suffixed \<open>_dart_ts\<close> or \<open>_part_000\<close>.

  Strings are lists of characters. JavaScript exceptions are values of \<open>error\<close>, and a
  function that can throw returns \<open>error + 'a\<close> with \<open>Inl\<close> for the exception.
\<close>

datatype error =
  TypeError
  | SyntaxError
  | CircularDependency string

subsection \<open>Catalog records\<close>

text \<open>
  \<open>PostgresType\<close> and \<open>PostgresColumn\<close> are imported by the template from the library;
  only the fields the template reads are kept. The fields \<open>id\<close>, \<open>name\<close>, \<open>attributes\<close>,
  \<open>enums\<close>, \<open>comment\<close> of a type are \<open>pg_id\<close>, \<open>pg_name\<close>, \<open>pg_attributes\<close>, \<open>pg_enums\<close>,
  \<open>pg_comment\<close>; the fields \<open>name\<close> and \<open>type_id\<close> of an attribute are \<open>attr_name\<close> and
  \<open>attr_type_id\<close>; the fields of a column carry the prefix \<open>col_\<close>. A \<open>null\<close> comment,
  default value or check is \<open>None\<close>.
\<close>

record PostgresAttribute =
  attr_name :: string
  attr_type_id :: int

record PostgresType =
  pg_id :: int
  pg_name :: string
  pg_attributes :: "PostgresAttribute list"
  pg_enums :: "string list"
  pg_comment :: "string option"

record PostgresColumn =
  col_table_id :: int
  col_name :: string
  col_format :: string
  col_is_nullable :: bool
  col_is_generated :: bool
  col_is_identity :: bool
  col_default_value :: "string option"
  col_check :: "string option"

subsection \<open>Name formatting\<close>

text \<open>
  \<^verbatim>\<open>name.split(/[^a-zA-Z0-9]/)\<close>: every character outside the three ranges is a separator,
  and \<open>n\<close> separators cut the name into \<open>n + 1\<close> segments, empty ones included (the
  empty name gives the one empty segment).
\<close>

definition is_alnum :: "char \<Rightarrow> bool" where
  "is_alnum c =
     (let n = (of_char c :: nat)
      in (48 \<le> n \<and> n \<le> 57) \<or> (65 \<le> n \<and> n \<le> 90) \<or> (97 \<le> n \<and> n \<le> 122))"

fun split_non_alnum :: "string \<Rightarrow> string list" where
  "split_non_alnum [] = [[]]"
| "split_non_alnum (c # cs) =
     (let ws = split_non_alnum cs
      in if is_alnum c then (c # hd ws) # tl ws else [] # ws)"

text \<open>
  \<open>toUpperCase\<close> and \<open>toLowerCase\<close> are only ever applied to the first character of a
  segment or of a formatted name, which is an ASCII letter or digit.
\<close>

definition toUpperCase :: "char \<Rightarrow> char" where
  "toUpperCase c =
     (let n = (of_char c :: nat) in if 97 \<le> n \<and> n \<le> 122 then char_of (n - 32) else c)"

definition toLowerCase :: "char \<Rightarrow> char" where
  "toLowerCase c =
     (let n = (of_char c :: nat) in if 65 \<le> n \<and> n \<le> 90 then char_of (n + 32) else c)"

text \<open>
  \<^verbatim>\<open>`${word[0].toUpperCase()}${word.slice(1)}`\<close>: on the empty segment \<open>word[0]\<close> is
  \<open>undefined\<close> and the method call throws a TypeError.
\<close>

definition capitalize :: "string \<Rightarrow> error + string" where
  "capitalize word =
     (case word of [] \<Rightarrow> Inl TypeError | c # cs \<Rightarrow> Inr (toUpperCase c # cs))"

text \<open>\<open>Array.prototype.map\<close> with a callback that may throw: the first exception ends it.\<close>

fun map_throwing :: "('a \<Rightarrow> error + 'b) \<Rightarrow> 'a list \<Rightarrow> error + 'b list" where
  "map_throwing f [] = Inr []"
| "map_throwing f (x # xs) =
     (case f x of
        Inl e \<Rightarrow> Inl e
      | Inr y \<Rightarrow> (case map_throwing f xs of Inl e \<Rightarrow> Inl e | Inr ys \<Rightarrow> Inr (y # ys)))"

definition formatForDartClassName :: "string \<Rightarrow> error + string" where
  "formatForDartClassName name =
     (case map_throwing capitalize (split_non_alnum name) of
        Inl e \<Rightarrow> Inl e
      | Inr ws \<Rightarrow> Inr (concat ws))"

definition formatForDartPropertyName :: "string \<Rightarrow> error + string" where
  "formatForDartPropertyName name =
     (case formatForDartClassName name of
        Inl e \<Rightarrow> Inl e
      | Inr className \<Rightarrow>
          (case className of
             [] \<Rightarrow> Inl TypeError
           | c # cs \<Rightarrow> Inr (toLowerCase c # cs)))"

text \<open>The two shapes of name the claim about formatting singles out.\<close>

definition starts_with_non_alnum :: "string \<Rightarrow> bool" where
  "starts_with_non_alnum name = (case name of [] \<Rightarrow> False | c # _ \<Rightarrow> \<not> is_alnum c)"

fun has_adjacent_non_alnum :: "string \<Rightarrow> bool" where
  "has_adjacent_non_alnum (a # b # cs) =
     ((\<not> is_alnum a \<and> \<not> is_alnum b) \<or> has_adjacent_non_alnum (b # cs))"
| "has_adjacent_non_alnum _ = False"

subsection \<open>Parsed JSON\<close>

text \<open>
  The values \<open>JSON.parse\<close> returns. An object lists its keys in the order \<open>for ... in\<close> and
  \<open>Object.keys\<close> visit them, each key once. A number is kept as an integer: the template
  only tests numbers for truthiness.
\<close>

datatype json =
  JNull
  | JBool bool
  | JNumber int
  | JString string
  | JArray "json list"
  | JObject "(string \<times> json) list"

subsection \<open>Dart types\<close>

text \<open>
  The classes that implement \<open>DartType\<close>, one constructor each. A composite class keeps
  its \<open>postgresType\<close> and the \<open>name\<close> its constructor computed; the reference to the
  registry it also keeps is only read by \<open>generateDeclaration\<close>, which is not part of this
  development. An enum keeps \<open>originalName\<close>, its value list and the parsed comment (always
  \<open>None\<close> in \<^verbatim>\<open>part_000\<close>, whose constructor ignores the comment). A class derived from
  a JSON schema keeps its \<open>name\<close> and its \<open>props\<close> in insertion order.

  The types of TypeScript are gone when the code runs, and two values that are no
  \<open>DartType\<close> reach the places where the code expects one. \<open>JSUndefined\<close> is \<open>undefined\<close>,
  which reading the element \<open>[1]\<close> gives on an object that is not an entry of the registry.
  \<open>ObjectPrototypeMember name\<close> is the value of \<open>({})[name]\<close> for a name that every object
  inherits from \<open>Object.prototype\<close>, such as \<open>constructor\<close> or \<open>toString\<close>: a built-in
  function, or the prototype itself for \<open>__proto__\<close>. It is what a lookup in the static
  table gives for such a name. Neither value has the methods of a \<open>DartType\<close>, so calling
  one of them throws a TypeError; \<open>undefined\<close> is falsy, the other value is truthy.
\<close>

datatype DartType =
  BuiltinDartType string
  | DatetimeDartType
  | DurationDartType
  | ListDartType DartType
  | NullDartType DartType
  | MapDartType DartType DartType
  | EnumDartConstruct string "string list" "json option"
  | ClassDartConstructForCompositeType PostgresType string
  | ClassDartConstructForJsonschema string "(string \<times> DartType) list"
  | JSUndefined
  | ObjectPrototypeMember string

text \<open>
  \<^verbatim>\<open>new NullDartType(containedType)\<close>: the constructor unwraps an argument that is itself a
  \<open>NullDartType\<close>.
\<close>

definition new_NullDartType :: "DartType \<Rightarrow> DartType" where
  "new_NullDartType containedType =
     (case containedType of
        NullDartType inner \<Rightarrow> NullDartType inner
      | _ \<Rightarrow> NullDartType containedType)"

text \<open>\<^verbatim>\<open>x instanceof NullDartType\<close>\<close>

definition instanceof_NullDartType :: "DartType \<Rightarrow> bool" where
  "instanceof_NullDartType x = (case x of NullDartType _ \<Rightarrow> True | _ \<Rightarrow> False)"

text \<open>The truthiness of a value that stands for a \<open>DartType\<close>: all but \<open>undefined\<close>.\<close>

definition truthy_DartType :: "DartType \<Rightarrow> bool" where
  "truthy_DartType x = (case x of JSUndefined \<Rightarrow> False | _ \<Rightarrow> True)"

text \<open>Sequencing of computations that may throw.\<close>

definition and_then :: "error + 'a \<Rightarrow> ('a \<Rightarrow> error + 'b) \<Rightarrow> error + 'b" where
  "and_then r f = (case r of Inl e \<Rightarrow> Inl e | Inr x \<Rightarrow> f x)"

text \<open>
  \<open>generateType\<close> is the same in both revisions. An enum formats its original name on
  every call, so the call can throw.
\<close>

fun generateType :: "DartType \<Rightarrow> error + string" where
  "generateType (BuiltinDartType keyword) = Inr keyword"
| "generateType DatetimeDartType = Inr ''DateTime''"
| "generateType DurationDartType = Inr ''Duration''"
| "generateType (ListDartType containedType) =
     and_then (generateType containedType) (\<lambda>t. Inr (''List<'' @ t @ ''>''))"
| "generateType (NullDartType containedType) =
     and_then (generateType containedType) (\<lambda>t. Inr (t @ ''?''))"
| "generateType (MapDartType keyType valueType) =
     and_then (generateType keyType) (\<lambda>k.
     and_then (generateType valueType) (\<lambda>v. Inr (''Map<'' @ k @ '', '' @ v @ ''>'')))"
| "generateType (EnumDartConstruct originalName vals cmt) = formatForDartClassName originalName"
| "generateType (ClassDartConstructForCompositeType postgresType name) = Inr name"
| "generateType (ClassDartConstructForJsonschema name props) = Inr name"
| "generateType JSUndefined = Inl TypeError"
| "generateType (ObjectPrototypeMember name) = Inl TypeError"

text \<open>\<open>generateJsonEncoding\<close> and \<open>generateJsonDecoding\<close> of \<^verbatim>\<open>part_000\<close>.\<close>

fun generateJsonEncoding_part_000 :: "DartType \<Rightarrow> error + string" where
  "generateJsonEncoding_part_000 (BuiltinDartType keyword) = Inr ''''"
| "generateJsonEncoding_part_000 DatetimeDartType = Inr ''.toIso8601String()''"
| "generateJsonEncoding_part_000 DurationDartType = Inr ''.inSeconds''"
| "generateJsonEncoding_part_000 (ListDartType containedType) =
     and_then (generateJsonEncoding_part_000 containedType) (\<lambda>e.
       Inr (''.map((v) => v'' @ e @ '').toList()''))"
| "generateJsonEncoding_part_000 (NullDartType containedType) =
     generateJsonEncoding_part_000 containedType"
| "generateJsonEncoding_part_000 (MapDartType keyType valueType) = Inr ''''"
| "generateJsonEncoding_part_000 (EnumDartConstruct originalName vals cmt) = Inr ''.toJson()''"
| "generateJsonEncoding_part_000 (ClassDartConstructForCompositeType postgresType name) = Inr ''.toJson()''"
| "generateJsonEncoding_part_000 (ClassDartConstructForJsonschema name props) = Inr ''.toJson()''"
| "generateJsonEncoding_part_000 JSUndefined = Inl TypeError"
| "generateJsonEncoding_part_000 (ObjectPrototypeMember name) = Inl TypeError"

fun generateJsonDecoding_part_000 :: "DartType \<Rightarrow> string \<Rightarrow> error + string" where
  "generateJsonDecoding_part_000 (BuiltinDartType keyword) inputParameter =
     Inr (inputParameter @ '' as '' @ keyword)"
| "generateJsonDecoding_part_000 DatetimeDartType inputParameter =
     Inr (''DateTime.parse('' @ inputParameter @ '')'')"
| "generateJsonDecoding_part_000 DurationDartType inputParameter =
     Inr (''parsePostgresInterval('' @ inputParameter @ '')'')"
| "generateJsonDecoding_part_000 (ListDartType containedType) inputParameter =
     and_then (generateJsonDecoding_part_000 containedType ''v'') (\<lambda>d.
       Inr (''('' @ inputParameter @ '' as List<dynamic>).map((v) => '' @ d @ '').toList()''))"
| "generateJsonDecoding_part_000 (NullDartType containedType) inputParameter =
     and_then (generateJsonDecoding_part_000 containedType inputParameter) (\<lambda>d.
       Inr (inputParameter @ '' == null ? null : '' @ d))"
| "generateJsonDecoding_part_000 (MapDartType keyType valueType) inputParameter =
     Inr (inputParameter @ '' as Map<String, dynamic>'')"
| "generateJsonDecoding_part_000 (EnumDartConstruct originalName vals cmt) inputParameter =
     and_then (formatForDartClassName originalName) (\<lambda>n.
       Inr (n @ ''.fromJson('' @ inputParameter @ '')''))"
| "generateJsonDecoding_part_000 (ClassDartConstructForCompositeType postgresType name) inputParameter =
     Inr (name @ ''.fromJson('' @ inputParameter @ '')'')"
| "generateJsonDecoding_part_000 (ClassDartConstructForJsonschema name props) inputParameter =
     Inr (name @ ''.fromJson('' @ inputParameter @ '')'')"
| "generateJsonDecoding_part_000 JSUndefined inputParameter = Inl TypeError"
| "generateJsonDecoding_part_000 (ObjectPrototypeMember name) inputParameter = Inl TypeError"

text \<open>
  \<open>generateJsonEncoding\<close> and \<open>generateJsonDecoding\<close> of \<^verbatim>\<open>dart.ts\<close>, which has no class
  derived from a JSON schema: on that constructor they are given the values of
  \<^verbatim>\<open>part_000\<close>.
\<close>

fun generateJsonEncoding_dart_ts :: "DartType \<Rightarrow> error + string" where
  "generateJsonEncoding_dart_ts (BuiltinDartType keyword) = Inr ''''"
| "generateJsonEncoding_dart_ts DatetimeDartType = Inr ''.toIso8601String()''"
| "generateJsonEncoding_dart_ts DurationDartType = Inr ''.inSeconds''"
| "generateJsonEncoding_dart_ts (ListDartType containedType) =
     generateJsonEncoding_dart_ts containedType"
| "generateJsonEncoding_dart_ts (NullDartType containedType) =
     generateJsonEncoding_dart_ts containedType"
| "generateJsonEncoding_dart_ts (MapDartType keyType valueType) = Inr ''''"
| "generateJsonEncoding_dart_ts (EnumDartConstruct originalName vals cmt) = Inr ''''"
| "generateJsonEncoding_dart_ts (ClassDartConstructForCompositeType postgresType name) = Inr ''''"
| "generateJsonEncoding_dart_ts (ClassDartConstructForJsonschema name props) = Inr ''.toJson()''"
| "generateJsonEncoding_dart_ts JSUndefined = Inl TypeError"
| "generateJsonEncoding_dart_ts (ObjectPrototypeMember name) = Inl TypeError"

fun generateJsonDecoding_dart_ts :: "DartType \<Rightarrow> string \<Rightarrow> error + string" where
  "generateJsonDecoding_dart_ts (BuiltinDartType keyword) inputParameter =
     Inr (inputParameter @ '' as '' @ keyword)"
| "generateJsonDecoding_dart_ts DatetimeDartType inputParameter =
     Inr (''DateTime.parse('' @ inputParameter @ '')'')"
| "generateJsonDecoding_dart_ts DurationDartType inputParameter =
     Inr (''parsePostgresInterval('' @ inputParameter @ '')'')"
| "generateJsonDecoding_dart_ts (ListDartType containedType) inputParameter =
     and_then (generateJsonDecoding_dart_ts containedType inputParameter) (\<lambda>d.
       Inr (''('' @ inputParameter @ '' as List<dynamic>).map((v) => '' @ d @ '').toList()''))"
| "generateJsonDecoding_dart_ts (NullDartType containedType) inputParameter =
     and_then (generateJsonDecoding_dart_ts containedType inputParameter) (\<lambda>d.
       Inr (inputParameter @ '' == null ? null : '' @ d))"
| "generateJsonDecoding_dart_ts (MapDartType keyType valueType) inputParameter =
     Inr inputParameter"
| "generateJsonDecoding_dart_ts (EnumDartConstruct originalName vals cmt) inputParameter =
     and_then (formatForDartClassName originalName) (\<lambda>n.
       Inr (n @ ''.values.byName('' @ inputParameter @ '')''))"
| "generateJsonDecoding_dart_ts (ClassDartConstructForCompositeType postgresType name) inputParameter =
     Inr (name @ ''.fromJson('' @ inputParameter @ '')'')"
| "generateJsonDecoding_dart_ts (ClassDartConstructForJsonschema name props) inputParameter =
     Inr (name @ ''.fromJson('' @ inputParameter @ '')'')"
| "generateJsonDecoding_dart_ts JSUndefined inputParameter = Inl TypeError"
| "generateJsonDecoding_dart_ts (ObjectPrototypeMember name) inputParameter = Inl TypeError"

subsection \<open>JavaScript operations on parsed JSON\<close>

text \<open>
  Decimal rendering of a number used as a property key (\<open>String(n)\<close>).
\<close>

definition digit :: "nat \<Rightarrow> char" where
  "digit d = char_of (of_char CHR ''0'' + d)"

fun decimal :: "nat \<Rightarrow> string" where
  "decimal n = (if 10 \<le> n then decimal (n div 10) @ [digit (n mod 10)] else [digit n])"

definition String_of_number :: "int \<Rightarrow> string" where
  "String_of_number i = (if 0 \<le> i then decimal (nat i) else CHR ''-'' # decimal (nat (- i)))"

text \<open>
  The own enumerable property names of a value, as \<open>for ... in\<close> visits them: the keys of
  an object, the indices of an array or of a string, none for the other primitives. The
  properties that a value inherits are not enumerable.
\<close>

definition own_keys :: "json \<Rightarrow> string list" where
  "own_keys j =
     (case j of
        JObject kvs \<Rightarrow> map fst kvs
      | JArray xs \<Rightarrow> map decimal [0..<length xs]
      | JString s \<Rightarrow> map decimal [0..<length s]
      | _ \<Rightarrow> [])"

text \<open>\<open>Object.keys(x)\<close> throws on \<open>null\<close> and \<open>undefined\<close> (\<open>None\<close>).\<close>

definition Object_keys :: "json option \<Rightarrow> error + string list" where
  "Object_keys x =
     (case x of None \<Rightarrow> Inl TypeError | Some JNull \<Rightarrow> Inl TypeError | Some j \<Rightarrow> Inr (own_keys j))"

text \<open>
  The names that every object inherits from \<open>Object.prototype\<close>, and the names that an
  array has of its own or inherits from \<open>Array.prototype\<close> besides its indices (those of
  ECMAScript 2023).
\<close>

definition Object_prototype_names :: "string list" where
  "Object_prototype_names =
     [''constructor'', ''__defineGetter__'', ''__defineSetter__'', ''hasOwnProperty'',
      ''__lookupGetter__'', ''__lookupSetter__'', ''isPrototypeOf'', ''propertyIsEnumerable'',
      ''toString'', ''valueOf'', ''__proto__'', ''toLocaleString'']"

definition Array_prototype_names :: "string list" where
  "Array_prototype_names =
     [''length'', ''at'', ''concat'', ''copyWithin'', ''fill'', ''find'', ''findIndex'',
      ''findLast'', ''findLastIndex'', ''lastIndexOf'', ''pop'', ''push'', ''reverse'', ''shift'',
      ''unshift'', ''slice'', ''sort'', ''splice'', ''includes'', ''indexOf'', ''join'', ''keys'',
      ''entries'', ''values'', ''forEach'', ''filter'', ''flat'', ''flatMap'', ''map'', ''every'',
      ''some'', ''reduce'', ''reduceRight'', ''toReversed'', ''toSorted'', ''toSpliced'', ''with'']"

text \<open>
  \<open>key in x\<close> throws unless \<open>x\<close> is an object or an array; it holds for the own properties
  of \<open>x\<close> and for the names that \<open>x\<close> inherits.
\<close>

definition js_in :: "string \<Rightarrow> json option \<Rightarrow> error + bool" where
  "js_in key x =
     (case x of
        Some (JObject kvs) \<Rightarrow>
          Inr (key \<in> set (map fst kvs) \<or> key \<in> set Object_prototype_names)
      | Some (JArray xs) \<Rightarrow>
          Inr (key \<in> set (map decimal [0..<length xs]) \<or> key \<in> set Array_prototype_names \<or>
               key \<in> set Object_prototype_names)
      | _ \<Rightarrow> Inl TypeError)"

text \<open>
  \<open>x[key]\<close> on a value that is not \<open>null\<close>, for a key that is an own property of \<open>x\<close> or
  that \<open>x\<close> does not have at all; \<open>None\<close> is \<open>undefined\<close>. The code embedded here reads parsed
  JSON under the keys \<open>for ... in\<close> has given it, which are own, and under the fixed keys
  \<open>type\<close>, \<open>items\<close>, \<open>properties\<close>, \<open>required\<close>, \<open>translation\<close> and the locales, which no
  value inherits. Reading a property of \<open>undefined\<close> never happens in it, and gives \<open>None\<close>.
\<close>

definition js_get :: "json option \<Rightarrow> string \<Rightarrow> json option" where
  "js_get x key =
     (case x of
        Some (JObject kvs) \<Rightarrow> map_of kvs key
      | Some (JArray xs) \<Rightarrow>
          (if key = ''length'' then Some (JNumber (int (length xs)))
           else map_of (zip (map decimal [0..<length xs]) xs) key)
      | Some (JString s) \<Rightarrow>
          (if key = ''length'' then Some (JNumber (int (length s)))
           else map_of (zip (map decimal [0..<length s]) (map (\<lambda>c. JString [c]) s)) key)
      | _ \<Rightarrow> None)"

definition truthy :: "json option \<Rightarrow> bool" where
  "truthy x =
     (case x of
        None \<Rightarrow> False
      | Some JNull \<Rightarrow> False
      | Some (JBool b) \<Rightarrow> b
      | Some (JNumber n) \<Rightarrow> n \<noteq> 0
      | Some (JString s) \<Rightarrow> s \<noteq> []
      | Some _ \<Rightarrow> True)"

text \<open>\<open>typeof x === 'object'\<close> for a truthy \<open>x\<close>: objects and arrays.\<close>

definition typeof_object :: "json option \<Rightarrow> bool" where
  "typeof_object x = (case x of Some (JObject _) \<Rightarrow> True | Some (JArray _) \<Rightarrow> True | _ \<Rightarrow> False)"

subsection \<open>The registry\<close>

text \<open>
  \<open>PostgresToDartMap\<close> is a JavaScript object from keys to pairs of a catalog type
  (\<open>undefined\<close> is \<open>None\<close>) and a Dart type. It is an association list updated in place
  by \<open>AList.update\<close>; a numeric key is its decimal string, as in JavaScript. Every
  assignment \<open>ptdMap[k] = [t, d]\<close> stores a fresh pair, so no two keys share one.

  The object is created by \<open>{}\<close>, so it inherits from \<open>Object.prototype\<close>. An assignment
  under the key \<open>__proto__\<close> creates no property: it makes the assigned pair the prototype
  of the object, and reading \<open>ptdMap['__proto__']\<close> gives that pair back. The list keeps
  the pair under the key \<open>__proto__\<close>, and a lookup of another key that finds no own
  property goes on through it.
\<close>

type_synonym PostgresToDartMap = "(string \<times> (PostgresType option \<times> DartType)) list"

text \<open>
  \<open>key in ptdMap\<close>: an own property, a name inherited from \<open>Object.prototype\<close> or, when a
  pair has been made the prototype, an index or a name of that array.
\<close>

definition in_ptdMap :: "string \<Rightarrow> PostgresToDartMap \<Rightarrow> bool" where
  "in_ptdMap key ptdMap \<longleftrightarrow>
     map_of ptdMap key \<noteq> None \<or> key \<in> set Object_prototype_names \<or>
     (map_of ptdMap ''__proto__'' \<noteq> None \<and>
      (key = ''0'' \<or> key = ''1'' \<or> key \<in> set Array_prototype_names))"

text \<open>
  \<open>ptdMap[key][1]\<close>. Under an own key this is the Dart type of the entry. When
  \<open>ptdMap[key]\<close> is \<open>undefined\<close>, reading its element throws a TypeError; nothing guards
  the read. When \<open>ptdMap[key]\<close> is an inherited value, which is an object (a built-in
  function, the catalog type or the Dart type of the pair that is the prototype) or the
  number \<open>length\<close>, its element \<open>[1]\<close> is \<open>undefined\<close>.
\<close>

definition element_1 :: "PostgresToDartMap \<Rightarrow> string \<Rightarrow> error + DartType" where
  "element_1 ptdMap key =
     (case map_of ptdMap key of
        Some entry \<Rightarrow> Inr (snd entry)
      | None \<Rightarrow>
          if key \<in> set Object_prototype_names then Inr JSUndefined
          else
            (case map_of ptdMap ''__proto__'' of
               None \<Rightarrow> Inl TypeError
             | Some array \<Rightarrow>
                 if key = ''0'' then (if fst array = None then Inl TypeError else Inr JSUndefined)
                 else if key = ''1''
                   then (if truthy_DartType (snd array) then Inr JSUndefined else Inl TypeError)
                 else if key \<in> set Array_prototype_names then Inr JSUndefined
                 else Inl TypeError))"

text \<open>\<open>buildDartTypeFromPostgresColumn\<close> (\<^verbatim>\<open>part_000\<close>).\<close>

definition buildDartTypeFromPostgresColumn ::
  "PostgresColumn \<Rightarrow> PostgresToDartMap \<Rightarrow> bool \<Rightarrow> error + DartType" where
  "buildDartTypeFromPostgresColumn postgresColumn ptdMap forInsert =
     and_then (element_1 ptdMap (col_format postgresColumn)) (\<lambda>ofFormat.
     and_then
       (if col_format postgresColumn = ''jsonb'' \<and> in_ptdMap (col_name postgresColumn) ptdMap
        then element_1 ptdMap (col_name postgresColumn)
        else Inr ofFormat) (\<lambda>dartType.
       if col_is_nullable postgresColumn \<or>
          (forInsert \<and> (col_is_generated postgresColumn \<or> col_is_identity postgresColumn \<or>
             col_default_value postgresColumn \<noteq> None))
       then Inr (new_NullDartType dartType)
       else Inr dartType))"

text \<open>
  \<^verbatim>\<open>dart.ts\<close> has no such function. Its \<open>ClassDartConstruct.generateDeclaration\<close> reads the
  type of a column straight from the registry, \<open>this.ptdMap[column.format][1]\<close>, with the
  same unguarded read.
\<close>

definition column_type_dart_ts :: "PostgresColumn \<Rightarrow> PostgresToDartMap \<Rightarrow> error + DartType" where
  "column_type_dart_ts column ptdMap = element_1 ptdMap (col_format column)"

text \<open>
  The assignment \<open>ptdMap[key][1] = d\<close> of \<^verbatim>\<open>dart.ts\<close>, after the read of \<open>ptdMap[key][1]\<close> has
  not thrown. Under an own key it replaces the Dart type of the entry. The number
  \<open>length\<close> takes no property, and the assignment throws a TypeError, the module being in
  strict mode. Otherwise \<open>ptdMap[key]\<close> is an inherited object, and the assignment gives
  that object a property \<open>1\<close>, which later reads of \<open>ptdMap[key][1]\<close> find; the list keeps
  it in a pair under the key. In \<open>generateDeclaration\<close> this last case does not arise: the
  parts before \<open>forInsert\<close> call \<open>generateType\<close> on \<open>ptdMap[column.format][1]\<close>, which is
  \<open>undefined\<close> there, and throw.
\<close>

definition assign_element_1 ::
  "PostgresToDartMap \<Rightarrow> string \<Rightarrow> DartType \<Rightarrow> error + PostgresToDartMap" where
  "assign_element_1 ptdMap key d =
     (case map_of ptdMap key of
        Some entry \<Rightarrow> Inr (AList.update key (fst entry, d) ptdMap)
      | None \<Rightarrow>
          if key = ''length'' then Inl TypeError
          else Inr (AList.update key (None, d) ptdMap))"

text \<open>
  The \<open>forInsert\<close> part of \<open>generateDeclaration\<close> in \<^verbatim>\<open>dart.ts\<close> first runs over the
  columns with a callback that assigns to the registry,
  \<^verbatim>\<open>this.ptdMap[column.format][1] = new NullDartType(this.ptdMap[column.format][1])\<close>,
  for every column that is generated, an identity or has a default, and then reads the
  parameter types from the registry it has changed. \<open>forInsert_mark_dart_ts\<close> is the first
  pass and returns the registry after it, \<open>forInsert_types_dart_ts\<close> is both passes; the
  text rendered around the types is left out.
\<close>

fun forInsert_mark_dart_ts :: "PostgresColumn list \<Rightarrow> PostgresToDartMap \<Rightarrow> error + PostgresToDartMap" where
  "forInsert_mark_dart_ts [] ptdMap = Inr ptdMap"
| "forInsert_mark_dart_ts (column # columns) ptdMap =
     (case element_1 ptdMap (col_format column) of
        Inl e \<Rightarrow> Inl e
      | Inr dartType \<Rightarrow>
          if \<not> instanceof_NullDartType dartType \<and>
             (col_is_generated column \<or> col_is_identity column \<or> col_default_value column \<noteq> None)
          then
            (case assign_element_1 ptdMap (col_format column) (new_NullDartType dartType) of
               Inl e \<Rightarrow> Inl e
             | Inr ptdMap' \<Rightarrow> forInsert_mark_dart_ts columns ptdMap')
          else forInsert_mark_dart_ts columns ptdMap)"

definition forInsert_types_dart_ts ::
  "PostgresColumn list \<Rightarrow> PostgresToDartMap \<Rightarrow> error + (DartType list \<times> PostgresToDartMap)" where
  "forInsert_types_dart_ts columns ptdMap =
     and_then (forInsert_mark_dart_ts columns ptdMap) (\<lambda>ptdMap'.
     and_then (map_throwing (\<lambda>column. column_type_dart_ts column ptdMap') columns) (\<lambda>ts.
       Inr (ts, ptdMap')))"

subsection \<open>Enum comments (\<^verbatim>\<open>dart.ts\<close>)\<close>

definition SUPPORTED_LOCALES :: "string list" where
  "SUPPORTED_LOCALES = [''en'', ''it'']"

text \<open>One element of \<open>SUPPORTED_LOCALES.map(...)\<close> in \<open>isTranslation\<close>.\<close>

definition locale_covered :: "json option \<Rightarrow> string list \<Rightarrow> string \<Rightarrow> error + bool" where
  "locale_covered translation enumValues v =
     and_then (js_in v translation) (\<lambda>present.
       if \<not> present then Inr False
       else and_then (Object_keys (js_get translation v)) (\<lambda>ks.
              Inr (length (filter (\<lambda>k. k \<notin> set enumValues) ks) = 0)))"

definition isTranslation :: "json option \<Rightarrow> string list \<Rightarrow> error + bool" where
  "isTranslation translation enumValues =
     and_then (map_throwing (locale_covered translation enumValues) SUPPORTED_LOCALES) (\<lambda>bs.
       Inr (list_all (\<lambda>b. b) bs))"

definition isEnumDartComment :: "json option \<Rightarrow> string list \<Rightarrow> error + bool" where
  "isEnumDartComment cmt enumValues =
     and_then (js_in ''translation'' cmt) (\<lambda>present.
       if \<not> present then Inr False
       else isTranslation (js_get cmt ''translation'') enumValues)"

text \<open>
  The constructor of \<open>EnumDartConstruct\<close> in \<^verbatim>\<open>dart.ts\<close>. \<open>JSON.parse\<close> is the built-in,
  taken as the parameter \<open>JSON_parse\<close>: \<open>None\<close> where it throws a SyntaxError. The call is
  not inside a \<open>try\<close>, so the constructor throws what \<open>JSON.parse\<close> and the \<open>in\<close>
  operators throw. The diagnostic is not modelled.
\<close>

definition new_EnumDartConstruct_dart_ts ::
  "(string \<Rightarrow> json option) \<Rightarrow> string \<Rightarrow> string list \<Rightarrow> string option \<Rightarrow> error + DartType" where
  "new_EnumDartConstruct_dart_ts JSON_parse name vals cmt =
     (case cmt of
        None \<Rightarrow> Inr (EnumDartConstruct name vals None)
      | Some text \<Rightarrow>
          (case JSON_parse text of
             None \<Rightarrow> Inl SyntaxError
           | Some parsedComment \<Rightarrow>
               and_then (isEnumDartComment (Some parsedComment) vals) (\<lambda>valid.
                 Inr (EnumDartConstruct name vals (if valid then Some parsedComment else None)))))"

text \<open>The constructor in \<^verbatim>\<open>part_000\<close> stores the name and the values and drops the comment.\<close>

definition new_EnumDartConstruct_part_000 :: "string \<Rightarrow> string list \<Rightarrow> string option \<Rightarrow> DartType" where
  "new_EnumDartConstruct_part_000 name vals cmt = EnumDartConstruct name vals None"

subsection \<open>From a catalog type to a Dart type\<close>

definition startsWith_underscore :: "string \<Rightarrow> bool" where
  "startsWith_underscore s = (case s of [] \<Rightarrow> False | c # _ \<Rightarrow> c = CHR ''_'')"

definition PGTYPE_TO_DARTTYPE_MAP_dart_ts :: "(string \<times> DartType) list" where
  "PGTYPE_TO_DARTTYPE_MAP_dart_ts =
     [(''bool'', BuiltinDartType ''bool''),
      (''int2'', BuiltinDartType ''int''),
      (''int4'', BuiltinDartType ''int''),
      (''int8'', BuiltinDartType ''int''),
      (''float4'', BuiltinDartType ''double''),
      (''float8'', BuiltinDartType ''double''),
      (''numeric'', BuiltinDartType ''double''),
      (''time'', DatetimeDartType),
      (''timetz'', DatetimeDartType),
      (''timestamp'', DatetimeDartType),
      (''timestamptz'', DatetimeDartType),
      (''date'', DatetimeDartType),
      (''interval'', DurationDartType),
      (''uuid'', BuiltinDartType ''String''),
      (''text'', BuiltinDartType ''String''),
      (''varchar'', BuiltinDartType ''String''),
      (''jsonb'', MapDartType (BuiltinDartType ''String'') (BuiltinDartType ''dynamic'')),
      (''regclass'', BuiltinDartType ''String'')]"

definition PGTYPE_TO_DARTTYPE_MAP_part_000 :: "(string \<times> DartType) list" where
  "PGTYPE_TO_DARTTYPE_MAP_part_000 =
     AList.update ''json'' (MapDartType (BuiltinDartType ''String'') (BuiltinDartType ''dynamic''))
       PGTYPE_TO_DARTTYPE_MAP_dart_ts"

text \<open>
  \<open>PGTYPE_TO_DARTTYPE_MAP[name]\<close>: the static table is an object literal, and a name that
  it inherits from \<open>Object.prototype\<close> finds the inherited value, which is truthy.
\<close>

definition static_lookup :: "(string \<times> DartType) list \<Rightarrow> string \<Rightarrow> DartType option" where
  "static_lookup static name =
     (case map_of static name of
        Some dartType \<Rightarrow> Some dartType
      | None \<Rightarrow>
          if name \<in> set Object_prototype_names then Some (ObjectPrototypeMember name) else None)"

text \<open>
  \<open>buildDartTypeFromPostgresType\<close> is one text in both revisions; the static table and the
  enum constructor it uses are not, and are the parameters \<open>static\<close> and \<open>new_Enum\<close>.
  \<open>existingDartType\<close> is \<open>ptdMap[sanitizedTypeName][1]\<close> when \<open>ptdMap[sanitizedTypeName]\<close> is
  truthy, which it is unless it is \<open>undefined\<close>, and \<open>undefined\<close> otherwise. The constructor
  of the composite class formats the type's name and can throw.
\<close>

definition wrap_if_array :: "string \<Rightarrow> DartType \<Rightarrow> DartType" where
  "wrap_if_array name d = (if startsWith_underscore name then ListDartType d else d)"

definition buildDartTypeFromPostgresType ::
  "(string \<times> DartType) list \<Rightarrow> (string \<Rightarrow> string list \<Rightarrow> string option \<Rightarrow> error + DartType) \<Rightarrow>
   PostgresType \<Rightarrow> PostgresToDartMap \<Rightarrow> error + DartType" where
  "buildDartTypeFromPostgresType static new_Enum postgresType ptdMap =
     (let sanitizedTypeName =
            (if startsWith_underscore (pg_name postgresType) then tl (pg_name postgresType)
             else pg_name postgresType);
          existingDartType =
            (if startsWith_underscore (pg_name postgresType)
             then (case element_1 ptdMap sanitizedTypeName of
                     Inr d \<Rightarrow> d
                   | Inl e \<Rightarrow> JSUndefined)
             else JSUndefined)
      in if truthy_DartType existingDartType then Inr (ListDartType existingDartType)
         else
           (case static_lookup static sanitizedTypeName of
              Some dartTypeFromStaticMap \<Rightarrow>
                Inr (wrap_if_array (pg_name postgresType) dartTypeFromStaticMap)
            | None \<Rightarrow>
                if length (pg_enums postgresType) > 0 then
                  and_then (new_Enum (pg_name postgresType) (pg_enums postgresType) (pg_comment postgresType))
                    (\<lambda>enumConstruct. Inr (wrap_if_array (pg_name postgresType) enumConstruct))
                else if length (pg_attributes postgresType) > 0 then
                  and_then (formatForDartClassName (pg_name postgresType)) (\<lambda>name.
                    Inr (wrap_if_array (pg_name postgresType)
                           (ClassDartConstructForCompositeType postgresType name)))
                else Inr (BuiltinDartType ''dynamic'')))"

definition buildDartTypeFromPostgresType_part_000 ::
  "PostgresType \<Rightarrow> PostgresToDartMap \<Rightarrow> error + DartType" where
  "buildDartTypeFromPostgresType_part_000 =
     buildDartTypeFromPostgresType PGTYPE_TO_DARTTYPE_MAP_part_000
       (\<lambda>name vals cmt. Inr (new_EnumDartConstruct_part_000 name vals cmt))"

definition buildDartTypeFromPostgresType_dart_ts ::
  "(string \<Rightarrow> json option) \<Rightarrow> PostgresType \<Rightarrow> PostgresToDartMap \<Rightarrow> error + DartType" where
  "buildDartTypeFromPostgresType_dart_ts JSON_parse =
     buildDartTypeFromPostgresType PGTYPE_TO_DARTTYPE_MAP_dart_ts
       (new_EnumDartConstruct_dart_ts JSON_parse)"

text \<open>
  The loop of \<open>apply\<close> that fills the registry from the required types, in their order:
  each type is registered under its id and under its name.
\<close>

fun register_types ::
  "(PostgresType \<Rightarrow> PostgresToDartMap \<Rightarrow> error + DartType) \<Rightarrow> PostgresType list \<Rightarrow>
   PostgresToDartMap \<Rightarrow> error + PostgresToDartMap" where
  "register_types build [] ptdMap = Inr ptdMap"
| "register_types build (t # requiredTypes) ptdMap =
     (case build t ptdMap of
        Inl e \<Rightarrow> Inl e
      | Inr newDartType \<Rightarrow>
          register_types build requiredTypes
            (AList.update (pg_name t) (Some t, newDartType)
               (AList.update (String_of_number (pg_id t)) (Some t, newDartType) ptdMap)))"

subsection \<open>Example catalog entries and columns\<close>

text \<open>
  The catalog type \<open>int4\<close> with its id, and two columns of one table: an identity column
  and a plain column, both of format \<open>int4\<close> and both declared \<open>NOT NULL\<close>. The registry
  is the one \<open>register_types\<close> builds from the single type.
\<close>

definition example_int4 :: PostgresType where
  "example_int4 =
     \<lparr>pg_id = 23, pg_name = ''int4'', pg_attributes = [], pg_enums = [], pg_comment = None\<rparr>"

definition example_id_column :: PostgresColumn where
  "example_id_column =
     \<lparr>col_table_id = 1, col_name = ''id'', col_format = ''int4'', col_is_nullable = False,
      col_is_generated = False, col_is_identity = True, col_default_value = None,
      col_check = None\<rparr>"

definition example_quantity_column :: PostgresColumn where
  "example_quantity_column =
     \<lparr>col_table_id = 1, col_name = ''quantity'', col_format = ''int4'', col_is_nullable = False,
      col_is_generated = False, col_is_identity = False, col_default_value = None,
      col_check = None\<rparr>"

definition example_registry :: PostgresToDartMap where
  "example_registry =
     [(''23'', (Some example_int4, BuiltinDartType ''int'')),
      (''int4'', (Some example_int4, BuiltinDartType ''int''))]"

text \<open>
  A column whose format, the extension type \<open>citext\<close>, is not a type of the catalog.
\<close>

definition example_citext_column :: PostgresColumn where
  "example_citext_column =
     \<lparr>col_table_id = 1, col_name = ''email'', col_format = ''citext'', col_is_nullable = False,
      col_is_generated = False, col_is_identity = False, col_default_value = None,
      col_check = None\<rparr>"

text \<open>
  An enum, a composite type with an attribute of that enum, and the enum's array type.
\<close>

definition example_status :: PostgresType where
  "example_status =
     \<lparr>pg_id = 1, pg_name = ''status'', pg_attributes = [], pg_enums = [''active'', ''done''],
      pg_comment = None\<rparr>"

definition example_task :: PostgresType where
  "example_task =
     \<lparr>pg_id = 2, pg_name = ''task'',
      pg_attributes = [\<lparr>attr_name = ''status'', attr_type_id = 1\<rparr>], pg_enums = [],
      pg_comment = None\<rparr>"

definition example_status_array :: PostgresType where
  "example_status_array =
     \<lparr>pg_id = 3, pg_name = ''_status'', pg_attributes = [], pg_enums = [], pg_comment = None\<rparr>"

text \<open>
  A composite type with an attribute \<open>tags text[]\<close>, whose type is the array type \<open>_text\<close>.
\<close>

definition example_text_array :: PostgresType where
  "example_text_array =
     \<lparr>pg_id = 1009, pg_name = ''_text'', pg_attributes = [], pg_enums = [], pg_comment = None\<rparr>"

definition example_tagged :: PostgresType where
  "example_tagged =
     \<lparr>pg_id = 10, pg_name = ''tagged'',
      pg_attributes = [\<lparr>attr_name = ''tags'', attr_type_id = 1009\<rparr>], pg_enums = [],
      pg_comment = None\<rparr>"

text \<open>
  A type whose own name starts with an underscore, and its array type, which PostgreSQL
  names by putting one more underscore in front.
\<close>

definition example_legacy :: PostgresType where
  "example_legacy =
     \<lparr>pg_id = 30, pg_name = ''_legacy'', pg_attributes = [], pg_enums = [''a''], pg_comment = None\<rparr>"

definition example_legacy_array :: PostgresType where
  "example_legacy_array =
     \<lparr>pg_id = 31, pg_name = ''__legacy'', pg_attributes = [], pg_enums = [], pg_comment = None\<rparr>"



text \<open>A catalog of five types, and a column of the composite type.\<close>

definition example_catalog :: "PostgresType list" where
  "example_catalog = [example_int4, example_status, example_task, example_status_array, example_text_array]"

definition example_task_column :: PostgresColumn where
  "example_task_column =
     \<lparr>col_table_id = 1, col_name = ''task'', col_format = ''task'', col_is_nullable = False,
      col_is_generated = False, col_is_identity = False, col_default_value = None,
      col_check = None\<rparr>"




subsection \<open>Dart types from a JSON schema (\<^verbatim>\<open>part_000\<close>)\<close>

text \<open>
  \<open>buildDartTypeFromJsonschema\<close> takes the schema (\<open>None\<close> is \<open>undefined\<close>), the optional
  name and the registry, which it assigns to; it returns the Dart type and the registry
  after its assignments. \<open>build_properties\<close> is the loop \<^verbatim>\<open>for (var p in schema.properties)\<close>
  over the remaining property names, with \<open>classProps\<close> as built so far. The test that
  decides the wrapping is the source's,
  \<^verbatim>\<open>'required' in schema.properties && !(p in schema.properties.required)\<close>: it looks for a
  property that is named \<open>required\<close>, and never reads \<open>schema.required\<close>. The constructor of
  the class formats the name and can throw; the diagnostic for a missing name is not
  modelled. \<open>classProps\<close> holds the own properties of the object, which are what
  \<open>Object.entries\<close> lists later: the assignment under a property named \<open>__proto__\<close> creates
  none.

  \<open>template_name\<close> is the name inside a template literal, where \<open>undefined\<close> prints as
  such. The two weights bound the recursion: a call descends into a property value of
  its argument.
\<close>

definition template_name :: "string option \<Rightarrow> string" where
  "template_name name = (case name of None \<Rightarrow> ''undefined'' | Some n \<Rightarrow> n)"

definition dynamic_map :: DartType where
  "dynamic_map = MapDartType (BuiltinDartType ''String'') (BuiltinDartType ''dynamic'')"

definition schema_weight :: "json option \<Rightarrow> nat" where
  "schema_weight x = (if typeof_object x then 2 * size (the x) + 2 else 0)"

definition properties_weight :: "json option \<Rightarrow> nat" where
  "properties_weight x = (if typeof_object x then 2 * size (the x) + 1 else 1)"

lemma size_map_of: "map_of kvs k = Some v \<Longrightarrow> size v < Suc (size_list (size_prod (\<lambda>_. 0) size) kvs)"
  by (induction kvs) (auto split: if_splits)

lemma size_in_set: "v \<in> set xs \<Longrightarrow> size (v::json) < Suc (size_list size xs)"
  by (induction xs) auto

lemma map_of_zip_in_set: "map_of (zip ks xs) k = Some v \<Longrightarrow> v \<in> set xs"
  by (auto dest!: map_of_SomeD set_zip_rightD)

lemma js_get_smaller:
  assumes "typeof_object x" "js_get x k = Some v" "typeof_object (Some v)"
  shows "size v < size (the x)"
proof (cases x)
  case None
  with assms(1) show ?thesis by (simp add: typeof_object_def)
next
  case (Some j)
  show ?thesis
  proof (cases j)
    case (JArray xs)
    with Some assms have "v \<in> set xs"
      by (auto simp add: js_get_def typeof_object_def split: if_splits dest: map_of_zip_in_set)
    then have "size v < Suc (size_list size xs)" by (rule size_in_set)
    with Some JArray show ?thesis by simp
  next
    case (JObject kvs)
    with Some assms have "map_of kvs k = Some v" by (simp add: js_get_def)
    then have "size v < Suc (size_list (size_prod (\<lambda>_. 0) size) kvs)" by (rule size_map_of)
    with Some JObject show ?thesis by simp
  qed (use Some assms in \<open>simp_all add: typeof_object_def\<close>)
qed

lemma typeof_object_None [simp]: "\<not> typeof_object None"
  by (simp add: typeof_object_def)

lemma schema_weight_js_get: "typeof_object x \<Longrightarrow> schema_weight (js_get x k) < schema_weight x"
  using js_get_smaller [of x k]
  by (cases "js_get x k") (auto simp add: schema_weight_def)

lemma properties_weight_js_get: "typeof_object x \<Longrightarrow> properties_weight (js_get x k) < schema_weight x"
  using js_get_smaller [of x k]
  by (cases "js_get x k") (auto simp add: schema_weight_def properties_weight_def)

lemma js_get_object_parent:
  assumes "js_get x k = Some v" "typeof_object (Some v)"
  shows "typeof_object x"
proof (cases x)
  case None
  with assms(1) show ?thesis by (simp add: js_get_def)
next
  case (Some j)
  show ?thesis
  proof (cases j)
    case (JString s)
    with Some assms(1) have "v \<in> set (map (\<lambda>c. JString [c]) s) \<or> v = JNumber (int (length s))"
      by (auto simp add: js_get_def split: if_splits dest: map_of_zip_in_set)
    with assms(2) show ?thesis by (auto simp add: typeof_object_def)
  qed (use Some assms in \<open>simp_all add: typeof_object_def js_get_def\<close>)
qed

lemma schema_weight_property: "schema_weight (js_get x k) < properties_weight x"
proof (cases "typeof_object (js_get x k)")
  case False
  then show ?thesis by (simp add: schema_weight_def properties_weight_def)
next
  case True
  then obtain v where v: "js_get x k = Some v" by (cases "js_get x k") auto
  with True have px: "typeof_object x" by (auto intro: js_get_object_parent)
  from js_get_smaller [OF px v] True v have "size v < size (the x)" by simp
  with True px v show ?thesis by (simp add: schema_weight_def properties_weight_def)
qed

function buildDartTypeFromJsonschema ::
  "json option \<Rightarrow> string option \<Rightarrow> PostgresToDartMap \<Rightarrow> error + (DartType \<times> PostgresToDartMap)"
and build_properties ::
  "json option \<Rightarrow> string list \<Rightarrow> (string \<times> DartType) list \<Rightarrow> PostgresToDartMap \<Rightarrow>
   error + ((string \<times> DartType) list \<times> PostgresToDartMap)"
where
  "buildDartTypeFromJsonschema schema name ptdMap =
     (if \<not> typeof_object schema then Inr (dynamic_map, ptdMap)
      else if js_get schema ''type'' = Some (JString ''array'') \<and> truthy (js_get schema ''items'') then
        (let newTypeName = template_name name @ ''_element''
         in case buildDartTypeFromJsonschema (js_get schema ''items'') (Some newTypeName) ptdMap of
              Inl e \<Rightarrow> Inl e
            | Inr (newType, ptdMap') \<Rightarrow>
                Inr (ListDartType newType, AList.update newTypeName (None, newType) ptdMap'))
      else if js_get schema ''type'' = Some (JString ''object'') \<and> truthy (js_get schema ''properties'') then
        (case name of
           None \<Rightarrow> Inr (dynamic_map, ptdMap)
         | Some n \<Rightarrow>
             (case build_properties (js_get schema ''properties'')
                     (own_keys (the (js_get schema ''properties''))) [] ptdMap of
                Inl e \<Rightarrow> Inl e
              | Inr (classProps, ptdMap') \<Rightarrow>
                  and_then (formatForDartClassName n) (\<lambda>className.
                    Inr (ClassDartConstructForJsonschema className classProps, ptdMap'))))
      else if js_get schema ''type'' = Some (JString ''string'') then Inr (BuiltinDartType ''String'', ptdMap)
      else if js_get schema ''type'' = Some (JString ''integer'') then Inr (BuiltinDartType ''int'', ptdMap)
      else if js_get schema ''type'' = Some (JString ''number'') then Inr (BuiltinDartType ''double'', ptdMap)
      else if js_get schema ''type'' = Some (JString ''boolean'') then Inr (BuiltinDartType ''bool'', ptdMap)
      else if js_get schema ''type'' = Some (JString ''null'') then
        Inr (new_NullDartType (BuiltinDartType ''dynamic''), ptdMap)
      else Inr (BuiltinDartType ''dynamic'', ptdMap))"
| "build_properties properties [] classProps ptdMap = Inr (classProps, ptdMap)"
| "build_properties properties (p # ps) classProps ptdMap =
     (case buildDartTypeFromJsonschema (js_get properties p) (Some p) ptdMap of
        Inl e \<Rightarrow> Inl e
      | Inr (built, ptdMap') \<Rightarrow>
          (case js_in ''required'' properties of
             Inl e \<Rightarrow> Inl e
           | Inr has_required \<Rightarrow>
               (case (if has_required then js_in p (js_get properties ''required'') else Inr True) of
                  Inl e \<Rightarrow> Inl e
                | Inr listed \<Rightarrow>
                    (let newType = (if has_required \<and> \<not> listed then new_NullDartType built else built)
                     in build_properties properties ps
                          (if p = ''__proto__'' then classProps else AList.update p newType classProps)
                          (AList.update p (None, newType) ptdMap')))))"
  by pat_completeness auto
termination
  apply (relation "measures [
     (\<lambda>x. case x of Inl (schema, name, ptdMap) \<Rightarrow> schema_weight schema
                  | Inr (properties, ps, classProps, ptdMap) \<Rightarrow> properties_weight properties),
     (\<lambda>x. case x of Inl _ \<Rightarrow> 0 | Inr (properties, ps, classProps, ptdMap) \<Rightarrow> length ps)]")
      apply simp
  subgoal by (simp add: schema_weight_js_get)
  subgoal by (simp add: properties_weight_js_get)
  subgoal by (simp add: schema_weight_property)
  subgoal by simp
  done

subsection \<open>Sorting types by dependency\<close>

text \<open>
  \<open>sortTypesByDependency\<close> and \<open>getRequiredTypes\<close> are the same text in both revisions.

  A \<open>TypeNode\<close> is the node object of the source; \<open>type\<close> is \<open>node_type\<close>. \<open>typeMap\<close> is a
  JavaScript \<open>Map\<close>: an association list in insertion order, where \<open>set\<close> on a key that is
  present replaces the value in place (\<open>AList.update\<close>) and \<open>get\<close> is \<open>map_of\<close>. A
  JavaScript \<open>Set\<close> is the list of its elements in insertion order.
\<close>

record TypeNode =
  node_type :: PostgresType
  dependencies :: "int list"
  visited :: bool
  inStack :: bool

type_synonym TypeMap = "(int \<times> TypeNode) list"

text \<open>\<open>Set.prototype.add\<close>, and \<open>new Set(xs)\<close>, which adds the elements in order.\<close>

definition Set_add :: "'a \<Rightarrow> 'a list \<Rightarrow> 'a list" where
  "Set_add x s = (if x \<in> set s then s else s @ [x])"

definition new_Set :: "'a list \<Rightarrow> 'a list" where
  "new_Set xs = foldl (\<lambda>s x. Set_add x s) [] xs"

text \<open>
  The node built for a type: its dependencies are the type ids of its attributes, without
  the type's own id.
\<close>

definition new_TypeNode :: "PostgresType \<Rightarrow> TypeNode" where
  "new_TypeNode t =
     \<lparr>node_type = t,
      dependencies = new_Set (filter (\<lambda>i. i \<noteq> pg_id t) (map attr_type_id (pg_attributes t))),
      visited = False,
      inStack = False\<rparr>"

definition initial_typeMap :: "PostgresType list \<Rightarrow> TypeMap" where
  "initial_typeMap types = foldl (\<lambda>typeMap t. AList.update (pg_id t) (new_TypeNode t) typeMap) [] types"

text \<open>
  The state \<open>dfs\<close> works on: the nodes, whose flags it assigns, and the array \<open>sorted\<close>
  (\<open>sorted_types\<close>) it pushes to.
\<close>

record dfs_state =
  typeMap :: TypeMap
  sorted_types :: "PostgresType list"

text \<open>
  The keys whose node is not on the stack; the recursion of \<open>dfs\<close> is bounded by their
  number.
\<close>

definition unstacked :: "TypeMap \<Rightarrow> int set" where
  "unstacked tm = {k. \<exists>n. map_of tm k = Some n \<and> \<not> inStack n}"

text \<open>
  \<open>dfs\<close>, with \<open>dfs_dependencies\<close> for its loop over \<open>node.dependencies\<close>. The node object is
  assigned to in place: \<open>inStack\<close> before the loop, \<open>visited\<close> and \<open>inStack\<close> after it; its
  \<open>type\<close> and \<open>dependencies\<close> never change.
\<close>

function dfs :: "int \<Rightarrow> dfs_state \<Rightarrow> error + dfs_state"
  and dfs_dependencies :: "int list \<Rightarrow> dfs_state \<Rightarrow> error + dfs_state"
where
  "dfs nodeId st =
     (case map_of (typeMap st) nodeId of
        None \<Rightarrow> Inr st
      | Some node \<Rightarrow>
          if inStack node then Inl (CircularDependency (pg_name (node_type node)))
          else if visited node then Inr st
          else
            (case dfs_dependencies (dependencies node)
                    (st\<lparr>typeMap := AList.update nodeId (node\<lparr>inStack := True\<rparr>) (typeMap st)\<rparr>) of
               Inl e \<Rightarrow> Inl e
             | Inr st' \<Rightarrow>
                 Inr (st'\<lparr>typeMap :=
                            AList.update nodeId (node\<lparr>visited := True, inStack := False\<rparr>) (typeMap st'),
                          sorted_types := sorted_types st' @ [node_type node]\<rparr>)))"
| "dfs_dependencies [] st = Inr st"
| "dfs_dependencies (depId # rest) st =
     (case dfs depId st of
        Inl e \<Rightarrow> Inl e
      | Inr st' \<Rightarrow> dfs_dependencies rest st')"
  by pat_completeness auto

lemma unstacked_finite: "finite (unstacked tm)"
proof -
  have "unstacked tm \<subseteq> fst ` set tm"
    by (auto simp add: unstacked_def dest!: map_of_SomeD intro: rev_image_eqI)
  then show ?thesis by (rule finite_subset) simp
qed

lemma unstacked_enter:
  "map_of tm k = Some node \<Longrightarrow> \<not> inStack node \<Longrightarrow>
   unstacked (AList.update k (node\<lparr>inStack := True\<rparr>) tm) = unstacked tm - {k}"
  by (auto simp add: unstacked_def AList.update_conv')

lemma unstacked_leave:
  "unstacked (AList.update k (node\<lparr>visited := True, inStack := False\<rparr>) tm) = insert k (unstacked tm)"
  by (auto simp add: unstacked_def AList.update_conv')

lemma dfs_unstacked_partial:
  "dfs_dfs_dependencies_dom (Inl (nodeId, st)) \<Longrightarrow> dfs nodeId st = Inr st' \<Longrightarrow>
     unstacked (typeMap st') = unstacked (typeMap st)"
  "dfs_dfs_dependencies_dom (Inr (deps, st)) \<Longrightarrow> dfs_dependencies deps st = Inr st' \<Longrightarrow>
     unstacked (typeMap st') = unstacked (typeMap st)"
proof (induction nodeId st and deps st arbitrary: st' and st' rule: dfs_dfs_dependencies.pinduct)
  case (1 nodeId st)
  show ?case
  proof (cases "map_of (typeMap st) nodeId")
    case None
    with "1.prems" "1.hyps" show ?thesis by (simp add: dfs.psimps)
  next
    case (Some node)
    show ?thesis
    proof (cases "inStack node \<or> visited node")
      case True
      from Some "1.hyps" have
        "dfs nodeId st =
           (if inStack node then Inl (CircularDependency (pg_name (node_type node))) else Inr st)"
        using True by (auto simp add: dfs.psimps)
      with "1.prems" show ?thesis by (simp split: if_splits)
    next
      case False
      let ?st1 = "st\<lparr>typeMap := AList.update nodeId (node\<lparr>inStack := True\<rparr>) (typeMap st)\<rparr>"
      from False Some "1.hyps" have unfold:
        "dfs nodeId st =
           (case dfs_dependencies (dependencies node) ?st1 of
              Inl e \<Rightarrow> Inl e
            | Inr st2 \<Rightarrow>
                Inr (st2\<lparr>typeMap :=
                           AList.update nodeId (node\<lparr>visited := True, inStack := False\<rparr>) (typeMap st2),
                         sorted_types := sorted_types st2 @ [node_type node]\<rparr>))"
        by (simp add: dfs.psimps)
      with "1.prems" obtain st2 where
        st2: "dfs_dependencies (dependencies node) ?st1 = Inr st2" and
        st': "st' = st2\<lparr>typeMap :=
                            AList.update nodeId (node\<lparr>visited := True, inStack := False\<rparr>) (typeMap st2),
                          sorted_types := sorted_types st2 @ [node_type node]\<rparr>"
        by (cases "dfs_dependencies (dependencies node) ?st1") auto
      from "1.IH" [OF Some _ _ st2] False
      have "unstacked (typeMap st2) = unstacked (typeMap ?st1)" by simp
      also have "\<dots> = unstacked (typeMap st) - {nodeId}"
        using Some False by (simp add: unstacked_enter)
      finally have "unstacked (typeMap st') = insert nodeId (unstacked (typeMap st) - {nodeId})"
        by (simp add: st' unstacked_leave)
      moreover have "nodeId \<in> unstacked (typeMap st)"
        using Some False by (auto simp add: unstacked_def)
      ultimately show ?thesis by auto
    qed
  qed
next
  case (2 st)
  then show ?case by (simp add: dfs_dependencies.psimps)
next
  case (3 depId rest st)
  from "3.prems" "3.hyps" obtain st1 where
    st1: "dfs depId st = Inr st1" and rest: "dfs_dependencies rest st1 = Inr st'"
    by (auto simp add: dfs_dependencies.psimps split: sum.splits)
  from "3.IH"(1) [OF st1] "3.IH"(2) [OF st1 rest] show ?case by simp
qed

termination dfs
proof (relation "measures [
     (\<lambda>x. case x of Inl (nodeId, st) \<Rightarrow> card (unstacked (typeMap st))
                  | Inr (deps, st) \<Rightarrow> card (unstacked (typeMap st))),
     (\<lambda>x. case x of Inl _ \<Rightarrow> 0 | Inr (deps, st) \<Rightarrow> Suc (length deps))]", goal_cases)
  case 1
  show ?case by simp
next
  case (2 nodeId st node)
  then have "nodeId \<in> unstacked (typeMap st)" by (auto simp add: unstacked_def)
  then have "card (unstacked (typeMap st) - {nodeId}) < card (unstacked (typeMap st))"
    by (rule card_Diff1_less [OF unstacked_finite])
  with 2 show ?case by (simp add: unstacked_enter)
next
  case (3 depId rest st)
  show ?case by simp
next
  case (4 depId rest st st')
  then show ?case by (simp add: dfs_unstacked_partial(1))
qed


text \<open>
  The loop over \<open>typeMap.keys()\<close>. A key always has its node; a missing one would make
  the read of \<open>visited\<close> throw.
\<close>

fun visit_all :: "int list \<Rightarrow> dfs_state \<Rightarrow> error + dfs_state" where
  "visit_all [] st = Inr st"
| "visit_all (nodeId # rest) st =
     (case map_of (typeMap st) nodeId of
        None \<Rightarrow> Inl TypeError
      | Some node \<Rightarrow>
          if \<not> visited node
          then (case dfs nodeId st of Inl e \<Rightarrow> Inl e | Inr st' \<Rightarrow> visit_all rest st')
          else visit_all rest st)"

text \<open>The comparator of the final \<open>sort\<close>.\<close>

definition arrays_last :: "PostgresType \<Rightarrow> PostgresType \<Rightarrow> int" where
  "arrays_last a b =
     (if startsWith_underscore (pg_name a) then 1
      else if startsWith_underscore (pg_name b) then - 1
      else 0)"

text \<open>
  \<open>Array.prototype.sort\<close> is stable. It is modelled as the insertion sort that takes the
  elements in order and puts each one in front of the first element of the sorted prefix
  that the comparator orders after it. The comparator above is not consistent (two
  array-marked types compare as \<open>1\<close> both ways), and for such a comparator ECMAScript leaves
  the order to the implementation; the binary insertion that V8 uses for short arrays
  yields the order of this model.
\<close>

fun insert_by :: "('a \<Rightarrow> 'a \<Rightarrow> int) \<Rightarrow> 'a \<Rightarrow> 'a list \<Rightarrow> 'a list" where
  "insert_by compare x [] = [x]"
| "insert_by compare x (y # ys) =
     (if compare x y < 0 then x # y # ys else y # insert_by compare x ys)"

definition Array_sort :: "('a \<Rightarrow> 'a \<Rightarrow> int) \<Rightarrow> 'a list \<Rightarrow> 'a list" where
  "Array_sort compare xs = foldl (\<lambda>done x. insert_by compare x done) [] xs"

definition sortTypesByDependency :: "PostgresType list \<Rightarrow> error + PostgresType list" where
  "sortTypesByDependency types =
     (let typeMap0 = initial_typeMap types
      in case visit_all (map fst typeMap0) \<lparr>typeMap = typeMap0, sorted_types = []\<rparr> of
           Inl e \<Rightarrow> Inl e
         | Inr st \<Rightarrow> Inr (Array_sort arrays_last (sorted_types st)))"

subsection \<open>Required types\<close>

text \<open>\<open>new Map(entries)\<close>: a later entry with the same key replaces the value of the earlier.\<close>

definition new_Map :: "('k \<times> 'v) list \<Rightarrow> ('k \<times> 'v) list" where
  "new_Map entries = foldl (\<lambda>m kv. AList.update (fst kv) (snd kv) m) [] entries"

text \<open>
  The loop over the columns that fills \<open>directTypeIds\<close>; the diagnostic for a format
  that names no type is not modelled.
\<close>

fun directTypeIds :: "(string \<times> PostgresType) list \<Rightarrow> PostgresColumn list \<Rightarrow> int list \<Rightarrow> int list" where
  "directTypeIds typesByName [] ids = ids"
| "directTypeIds typesByName (column # columns) ids =
     (let ids1 = (case map_of typesByName (col_format column) of
                    Some t \<Rightarrow> Set_add (pg_id t) ids
                  | None \<Rightarrow> ids);
          nonArrayType = (if startsWith_underscore (col_format column)
                          then map_of typesByName (tl (col_format column)) else None);
          ids2 = (case nonArrayType of Some t \<Rightarrow> Set_add (pg_id t) ids1 | None \<Rightarrow> ids1)
      in directTypeIds typesByName columns ids2)"

text \<open>
  \<open>collectDependencies\<close>, with \<open>collect_attributes\<close> for its loop over the attributes. The
  set \<open>allRequiredTypeIds\<close> it adds to is passed in and returned.
\<close>

function collectDependencies ::
  "(int \<times> PostgresType) list \<Rightarrow> (string \<times> PostgresType) list \<Rightarrow> int \<Rightarrow> int list \<Rightarrow> int list"
  and collect_attributes ::
  "(int \<times> PostgresType) list \<Rightarrow> (string \<times> PostgresType) list \<Rightarrow> PostgresAttribute list \<Rightarrow>
   int list \<Rightarrow> int list"
where
  "collectDependencies typesById typesByName typeId allRequiredTypeIds =
     (if typeId \<in> set allRequiredTypeIds then allRequiredTypeIds
      else case map_of typesById typeId of
             None \<Rightarrow> allRequiredTypeIds
           | Some t \<Rightarrow>
               (let ids = collect_attributes typesById typesByName (pg_attributes t)
                            (allRequiredTypeIds @ [typeId])
                in if startsWith_underscore (pg_name t) then
                     (case map_of typesByName (tl (pg_name t)) of
                        None \<Rightarrow> ids
                      | Some nonArrayType \<Rightarrow>
                          collectDependencies typesById typesByName (pg_id nonArrayType) ids)
                   else ids))"
| "collect_attributes typesById typesByName [] allRequiredTypeIds = allRequiredTypeIds"
| "collect_attributes typesById typesByName (attr # attrs) allRequiredTypeIds =
     collect_attributes typesById typesByName attrs
       (collectDependencies typesById typesByName (attr_type_id attr) allRequiredTypeIds)"
  by pat_completeness auto

lemma collect_grows_partial:
  "collectDependencies_collect_attributes_dom (Inl (byId, byName, typeId, ids)) \<Longrightarrow>
     set ids \<subseteq> set (collectDependencies byId byName typeId ids)"
  "collectDependencies_collect_attributes_dom (Inr (byId, byName, attrs, ids)) \<Longrightarrow>
     set ids \<subseteq> set (collect_attributes byId byName attrs ids)"
proof (induction byId byName typeId ids and byId byName attrs ids
       rule: collectDependencies_collect_attributes.pinduct)
  case (1 byId byName typeId ids)
  show ?case
  proof (cases "typeId \<in> set ids")
    case True
    with "1.hyps" show ?thesis by (simp add: collectDependencies.psimps)
  next
    case False
    note fresh = this
    show ?thesis
    proof (cases "map_of byId typeId")
      case None
      with fresh "1.hyps" show ?thesis by (simp add: collectDependencies.psimps)
    next
      case (Some t)
      let ?ids1 = "collect_attributes byId byName (pg_attributes t) (ids @ [typeId])"
      from "1.IH"(1) [OF fresh Some] have a: "set ids \<subseteq> set ?ids1" by simp
      show ?thesis
      proof (cases "startsWith_underscore (pg_name t)")
        case False
        with fresh Some "1.hyps" a show ?thesis by (simp add: collectDependencies.psimps)
      next
        case True
        show ?thesis
        proof (cases "map_of byName (tl (pg_name t))")
          case None
          with True fresh Some "1.hyps" a show ?thesis by (simp add: collectDependencies.psimps)
        next
          case (Some b)
          from "1.IH"(2) [OF fresh \<open>map_of byId typeId = Some t\<close> refl True Some]
          have "set ?ids1 \<subseteq> set (collectDependencies byId byName (pg_id b) ?ids1)" .
          with a True fresh Some \<open>map_of byId typeId = Some t\<close> "1.hyps" show ?thesis
            by (simp add: collectDependencies.psimps)
        qed
      qed
    qed
  qed
next
  case (2 byId byName ids)
  then show ?case by (simp add: collect_attributes.psimps)
next
  case (3 byId byName attr attrs ids)
  from "3.IH" "3.hyps" show ?case by (auto simp add: collect_attributes.psimps)
qed

text \<open>The ids of the catalog not collected yet bound the recursion.\<close>

definition uncollected :: "(int \<times> PostgresType) list \<Rightarrow> int list \<Rightarrow> int set" where
  "uncollected typesById ids = fst ` set typesById - set ids"

lemma uncollected_mono: "set ids \<subseteq> set ids' \<Longrightarrow> card (uncollected byId ids') \<le> card (uncollected byId ids)"
  by (auto simp add: uncollected_def intro!: card_mono)

lemma uncollected_add:
  assumes "typeId \<notin> set ids" "map_of byId typeId = Some t"
  shows "card (uncollected byId (ids @ [typeId])) < card (uncollected byId ids)"
proof -
  from assms(2) have "typeId \<in> fst ` set byId" by (auto dest!: map_of_SomeD intro: rev_image_eqI)
  with assms(1) have "uncollected byId (ids @ [typeId]) \<subset> uncollected byId ids"
    by (auto simp add: uncollected_def)
  then show ?thesis by (rule psubset_card_mono [rotated]) (simp add: uncollected_def)
qed

termination collectDependencies
proof (relation "measures [
     (\<lambda>x. case x of Inl (byId, byName, typeId, ids) \<Rightarrow> card (uncollected byId ids)
                  | Inr (byId, byName, attrs, ids) \<Rightarrow> card (uncollected byId ids)),
     (\<lambda>x. case x of Inl _ \<Rightarrow> 0 | Inr (byId, byName, attrs, ids) \<Rightarrow> Suc (length attrs))]", goal_cases)
  case 1
  show ?case by simp
next
  case (2 typesById typesByName typeId ids t)
  then show ?case by (simp add: uncollected_add)
next
  case (3 typesById typesByName typeId ids t x nonArrayType)
  from 3 have "collectDependencies_collect_attributes_dom
      (Inr (typesById, typesByName, pg_attributes t, ids @ [typeId]))" by simp
  then have "set (ids @ [typeId]) \<subseteq> set x"
    unfolding 3(3) by (rule collect_grows_partial(2))
  then have "card (uncollected typesById x) \<le> card (uncollected typesById (ids @ [typeId]))"
    by (rule uncollected_mono)
  also have "\<dots> < card (uncollected typesById ids)" using 3(1,2) by (rule uncollected_add)
  finally show ?case by simp
next
  case (4 typesById typesByName attr attrs ids)
  show ?case by simp
next
  case (5 typesById typesByName attr attrs ids)
  from 5 have "set ids \<subseteq> set (collectDependencies typesById typesByName (attr_type_id attr) ids)"
    by (rule collect_grows_partial(1))
  then have "card (uncollected typesById (collectDependencies typesById typesByName (attr_type_id attr) ids))
      \<le> card (uncollected typesById ids)" by (rule uncollected_mono)
  then show ?case by auto
qed

text \<open>
  \<open>typesById.get(id)!\<close>: an id without a type would give \<open>undefined\<close>, and
  \<open>sortTypesByDependency\<close> would throw on reading its \<open>id\<close>.
\<close>

definition lookup_required :: "(int \<times> PostgresType) list \<Rightarrow> int \<Rightarrow> error + PostgresType" where
  "lookup_required typesById typeId =
     (case map_of typesById typeId of None \<Rightarrow> Inl TypeError | Some t \<Rightarrow> Inr t)"

definition typesById :: "PostgresType list \<Rightarrow> (int \<times> PostgresType) list" where
  "typesById allTypes = new_Map (map (\<lambda>t. (pg_id t, t)) allTypes)"

definition typesByName :: "PostgresType list \<Rightarrow> (string \<times> PostgresType) list" where
  "typesByName allTypes = new_Map (map (\<lambda>t. (pg_name t, t)) allTypes)"

text \<open>
  The set \<open>allRequiredTypeIds\<close> after the loop that calls \<open>collectDependencies\<close> on each
  direct id, and \<open>getRequiredTypes\<close>.
\<close>

definition allRequiredTypeIds :: "PostgresType list \<Rightarrow> PostgresColumn list \<Rightarrow> int list" where
  "allRequiredTypeIds allTypes columns =
     foldl (\<lambda>ids typeId. collectDependencies (typesById allTypes) (typesByName allTypes) typeId ids) []
       (directTypeIds (typesByName allTypes) columns [])"

definition getRequiredTypes :: "PostgresType list \<Rightarrow> PostgresColumn list \<Rightarrow> error + PostgresType list" where
  "getRequiredTypes allTypes columns =
     (case map_throwing (lookup_required (typesById allTypes)) (allRequiredTypeIds allTypes columns) of
        Inl e \<Rightarrow> Inl e
      | Inr requiredTypes \<Rightarrow> sortTypesByDependency requiredTypes)"


subsection \<open>Vocabulary for the order of the output\<close>

text \<open>
  \<open>appears_before d t xs\<close>: \<open>d\<close> occurs in \<open>xs\<close> and \<open>t\<close> occurs strictly after that
  occurrence. A type is array-marked when its name starts with an underscore.
\<close>

fun appears_before :: "'a \<Rightarrow> 'a \<Rightarrow> 'a list \<Rightarrow> bool" where
  "appears_before d t [] = False"
| "appears_before d t (x # xs) = ((x = d \<and> t \<in> set xs) \<or> appears_before d t xs)"

definition array_marked :: "PostgresType \<Rightarrow> bool" where
  "array_marked t = startsWith_underscore (pg_name t)"

text \<open>
  The dependency relation on the ids of a list of types, as \<open>sortTypesByDependency\<close> reads
  it: \<open>T\<close> depends on \<open>D\<close> when an attribute of \<open>T\<close> has the id of \<open>D\<close> as its type, both are
  in the list, and the id is not \<open>T\<close>'s own. A type is on a cycle when its id reaches
  itself through one or more steps.
\<close>

definition depends_on :: "PostgresType list \<Rightarrow> (int \<times> int) set" where
  "depends_on types =
     {(pg_id T, pg_id D) | T D.
        T \<in> set types \<and> D \<in> set types \<and>
        pg_id D \<in> set (map attr_type_id (pg_attributes T)) \<and> pg_id D \<noteq> pg_id T}"

subsection \<open>Invariants of the search\<close>

text \<open>
  The keys whose node is on the stack, and those whose node is marked visited; the
  edges between the nodes of a map; \<open>same_graph\<close>, which says that two maps have the same
  keys in the same order and the same type and dependencies under each key.
\<close>

definition stacked :: "TypeMap \<Rightarrow> int set" where
  "stacked tm = {k. \<exists>n. map_of tm k = Some n \<and> inStack n}"

definition visited_ids :: "TypeMap \<Rightarrow> int set" where
  "visited_ids tm = {k. \<exists>n. map_of tm k = Some n \<and> visited n}"

definition node_edges :: "TypeMap \<Rightarrow> (int \<times> int) set" where
  "node_edges tm = {(k, d). \<exists>n. map_of tm k = Some n \<and> d \<in> set (dependencies n) \<and> map_of tm d \<noteq> None}"

definition same_graph :: "TypeMap \<Rightarrow> TypeMap \<Rightarrow> bool" where
  "same_graph tm tm' \<longleftrightarrow>
     map fst tm' = map fst tm \<and>
     (\<forall>k. map_option node_type (map_of tm' k) = map_option node_type (map_of tm k)) \<and>
     (\<forall>k. map_option dependencies (map_of tm' k) = map_option dependencies (map_of tm k))"

text \<open>
  What a call of \<open>dfs\<close> that returns leaves unchanged or only extends: the graph and
  the stack are the same, visited nodes stay visited, no node on the stack becomes
  visited, and \<open>sorted\<close> is only appended to.
\<close>

definition dfs_frame :: "dfs_state \<Rightarrow> dfs_state \<Rightarrow> bool" where
  "dfs_frame st st' \<longleftrightarrow>
     same_graph (typeMap st) (typeMap st') \<and>
     stacked (typeMap st') = stacked (typeMap st) \<and>
     visited_ids (typeMap st) \<subseteq> visited_ids (typeMap st') \<and>
     visited_ids (typeMap st') \<inter> stacked (typeMap st) \<subseteq> visited_ids (typeMap st) \<and>
     (\<exists>new. sorted_types st' = sorted_types st @ new)"

text \<open>
  The invariant of the search: a node's key is the id of its type; the ids in \<open>sorted\<close>
  are the visited keys, without repetition; every type in \<open>sorted\<close> is the type of the
  node under its id; and each dependency of a visited node that is a key of the map
  appears in \<open>sorted\<close> before the node.
\<close>

definition dfs_inv :: "dfs_state \<Rightarrow> bool" where
  "dfs_inv st \<longleftrightarrow>
     (\<forall>k n. map_of (typeMap st) k = Some n \<longrightarrow> pg_id (node_type n) = k) \<and>
     set (map pg_id (sorted_types st)) = visited_ids (typeMap st) \<and>
     distinct (map pg_id (sorted_types st)) \<and>
     (\<forall>t \<in> set (sorted_types st). map_option node_type (map_of (typeMap st) (pg_id t)) = Some t) \<and>
     (\<forall>k n d. map_of (typeMap st) k = Some n \<and> visited n \<and> d \<in> set (dependencies n) \<and>
        map_of (typeMap st) d \<noteq> None \<longrightarrow> appears_before d k (map pg_id (sorted_types st)))"

text \<open>
  What an error of the search from \<open>src\<close> says, with \<open>S\<close> the keys on the stack when the
  search began: the error names the type of a node \<open>m\<close> that \<open>src\<close> reaches and that is on
  that stack or on a cycle.
\<close>

definition names_cycle :: "TypeMap \<Rightarrow> int set \<Rightarrow> int \<Rightarrow> error \<Rightarrow> bool" where
  "names_cycle tm S src e \<longleftrightarrow>
     map_of tm src \<noteq> None \<and>
     (\<exists>m t. map_option node_type (map_of tm m) = Some t \<and> e = CircularDependency (pg_name t) \<and>
        (src, m) \<in> (node_edges tm)\<^sup>* \<and> (m \<in> S \<or> (m, m) \<in> (node_edges tm)\<^sup>+))"

subsection \<open>Vocabulary for the required types\<close>

text \<open>
  The ids the columns reference directly: the id of the type a column's format names and,
  for a format that starts with an underscore, the id of the type the rest of the format
  names.
\<close>

definition direct_references :: "(string \<times> PostgresType) list \<Rightarrow> PostgresColumn list \<Rightarrow> int set" where
  "direct_references byName columns =
     {pg_id t | c t. c \<in> set columns \<and>
        (map_of byName (col_format c) = Some t \<or>
         (startsWith_underscore (col_format c) \<and> map_of byName (tl (col_format c)) = Some t))}"

text \<open>
  \<open>references i j\<close>: the type under id \<open>i\<close> has an attribute of type id \<open>j\<close>, or it is
  array-marked and \<open>j\<close> is the id of the type that its name without the underscore names;
  and \<open>j\<close> is an id of the catalog. The required closure is the least set that holds the
  direct ids that are ids of the catalog and is closed under \<open>references\<close>.
\<close>

definition references :: "(int \<times> PostgresType) list \<Rightarrow> (string \<times> PostgresType) list \<Rightarrow> int \<Rightarrow> int \<Rightarrow> bool" where
  "references byId byName i j \<longleftrightarrow>
     (\<exists>t. map_of byId i = Some t \<and> map_of byId j \<noteq> None \<and>
        (j \<in> set (map attr_type_id (pg_attributes t)) \<or>
         (startsWith_underscore (pg_name t) \<and>
          map_option pg_id (map_of byName (tl (pg_name t))) = Some j)))"

inductive_set required_closure ::
  "(int \<times> PostgresType) list \<Rightarrow> (string \<times> PostgresType) list \<Rightarrow> int set \<Rightarrow> int set"
  for byId byName direct
where
  direct: "i \<in> direct \<Longrightarrow> map_of byId i \<noteq> None \<Longrightarrow>
           i \<in> required_closure byId byName direct"
| step: "i \<in> required_closure byId byName direct \<Longrightarrow> references byId byName i j \<Longrightarrow>
         j \<in> required_closure byId byName direct"

text \<open>All the ids that \<open>i\<close> references are in the list.\<close>

definition successors_in :: "(int \<times> PostgresType) list \<Rightarrow> (string \<times> PostgresType) list \<Rightarrow> int \<Rightarrow> int list \<Rightarrow> bool" where
  "successors_in byId byName i ids \<longleftrightarrow> (\<forall>j. references byId byName i j \<longrightarrow> j \<in> set ids)"

section \<open>Properties of name formatting\<close>

lemma split_non_alnum_not_Nil: "split_non_alnum name \<noteq> []"
  by (cases name) (simp_all add: Let_def)

lemma map_throwing_capitalize:
  "map_throwing capitalize ws = (if [] \<in> set ws then Inl TypeError else Inr (map (\<lambda>w. toUpperCase (hd w) # tl w) ws))"
proof (induction ws)
  case Nil
  show ?case by simp
next
  case (Cons w ws)
  show ?case
  proof (cases w)
    case Nil
    then show ?thesis by (simp add: capitalize_def)
  next
    case (Cons c cs)
    with Cons.IH show ?thesis by (simp add: capitalize_def)
  qed
qed

lemma formatForDartClassName_cases:
  "formatForDartClassName name =
     (if [] \<in> set (split_non_alnum name) then Inl TypeError
      else Inr (concat (map (\<lambda>w. toUpperCase (hd w) # tl w) (split_non_alnum name))))"
  by (simp add: formatForDartClassName_def map_throwing_capitalize)

lemma starts_with_non_alnum_empty_segment:
  "starts_with_non_alnum name \<Longrightarrow> [] \<in> set (split_non_alnum name)"
  by (cases name) (simp_all add: starts_with_non_alnum_def Let_def)

lemma hd_split_non_alnum:
  "hd (split_non_alnum name) = [] \<longleftrightarrow> name = [] \<or> \<not> is_alnum (hd name)"
  by (cases name) (simp_all add: Let_def)

lemma split_non_alnum_Cons:
  "split_non_alnum (c # cs) =
     (if is_alnum c then (c # hd (split_non_alnum cs)) # tl (split_non_alnum cs)
      else [] # split_non_alnum cs)"
  by (simp add: Let_def)

lemma has_adjacent_non_alnum_tl:
  "has_adjacent_non_alnum name \<Longrightarrow> [] \<in> set (tl (split_non_alnum name))"
proof (induction name rule: has_adjacent_non_alnum.induct)
  case (1 a b cs)
  show ?case
  proof (cases "\<not> is_alnum a \<and> \<not> is_alnum b")
    case True
    then show ?thesis by (simp add: split_non_alnum_Cons del: split_non_alnum.simps)
  next
    case False
    with "1.prems" have "has_adjacent_non_alnum (b # cs)" by simp
    with "1.IH" have mem: "[] \<in> set (tl (split_non_alnum (b # cs)))" by simp
    then have "[] \<in> set (split_non_alnum (b # cs))" by (rule list.set_sel(2) [rotated]) (rule split_non_alnum_not_Nil)
    with mem show ?thesis
      by (simp add: split_non_alnum_Cons [of a] del: split_non_alnum.simps)
  qed
qed simp_all

lemma has_adjacent_non_alnum_empty_segment:
  "has_adjacent_non_alnum name \<Longrightarrow> [] \<in> set (split_non_alnum name)"
  using has_adjacent_non_alnum_tl [of name] split_non_alnum_not_Nil [of name]
  by (cases "split_non_alnum name") auto

text \<open>
  C10. \<open>formatForDartClassName\<close> returns a string exactly for the names all of whose
  segments are non-empty; a name that begins with a character outside \<open>[a-zA-Z0-9]\<close>, or
  that has two such characters in a row, has an empty segment, and both
  \<open>formatForDartClassName\<close> and \<open>formatForDartPropertyName\<close> throw a TypeError on it.
\<close>

theorem formatForDartClassName_throws_on_empty_segment:
  "((\<exists>s. formatForDartClassName name = Inr s) = ([] \<notin> set (split_non_alnum name))) \<and>
   (starts_with_non_alnum name \<or> has_adjacent_non_alnum name \<longrightarrow>
      [] \<in> set (split_non_alnum name) \<and>
      formatForDartClassName name = Inl TypeError \<and>
      formatForDartPropertyName name = Inl TypeError)"
proof -
  have iff: "(\<exists>s. formatForDartClassName name = Inr s) = ([] \<notin> set (split_non_alnum name))"
    by (simp add: formatForDartClassName_cases)
  have thr: "[] \<in> set (split_non_alnum name) \<Longrightarrow>
      formatForDartClassName name = Inl TypeError \<and> formatForDartPropertyName name = Inl TypeError"
    by (simp add: formatForDartPropertyName_def formatForDartClassName_cases)
  show ?thesis
    using iff thr starts_with_non_alnum_empty_segment has_adjacent_non_alnum_empty_segment
    by blast
qed

theorem formatForDartClassName_throws_witness:
  "starts_with_non_alnum ''_status'' \<and> has_adjacent_non_alnum ''a__b'' \<and>
   formatForDartClassName ''_status'' = Inl TypeError \<and>
   formatForDartPropertyName ''a__b'' = Inl TypeError \<and>
   formatForDartClassName ''task_status'' = Inr ''TaskStatus''"
proof -
  have a: "starts_with_non_alnum ''_status''"
    by (simp add: starts_with_non_alnum_def is_alnum_def)
  have b: "has_adjacent_non_alnum ''a__b''"
    by (simp add: is_alnum_def)
  have c: "formatForDartClassName ''task_status'' = Inr ''TaskStatus''"
    by code_simp
  from a b c
    formatForDartClassName_throws_on_empty_segment [of "''_status''"]
    formatForDartClassName_throws_on_empty_segment [of "''a__b''"]
  show ?thesis by blast
qed

section \<open>Properties of the Dart types\<close>

lemma new_NullDartType_is_Null: "\<exists>inner. new_NullDartType X = NullDartType inner"
  by (cases X) (simp_all add: new_NullDartType_def)

lemma new_NullDartType_idem: "new_NullDartType (new_NullDartType X) = new_NullDartType X"
  by (cases X) (simp_all add: new_NullDartType_def)

text \<open>
  C8. Wrapping in \<open>Nullable\<close> is idempotent: the constructor applied twice builds the value
  it builds when applied once, so the type name and the decode expression (in either
  revision) of the doubly wrapped type are those of the singly wrapped one.
\<close>

theorem NullDartType_wrapping_idempotent:
  "new_NullDartType (new_NullDartType X) = new_NullDartType X \<and>
   generateType (new_NullDartType (new_NullDartType X)) = generateType (new_NullDartType X) \<and>
   generateJsonDecoding_part_000 (new_NullDartType (new_NullDartType X)) p =
     generateJsonDecoding_part_000 (new_NullDartType X) p \<and>
   generateJsonDecoding_dart_ts (new_NullDartType (new_NullDartType X)) p =
     generateJsonDecoding_dart_ts (new_NullDartType X) p"
  by (simp add: new_NullDartType_idem)

text \<open>
  In \<^verbatim>\<open>part_000\<close> a list decodes each element through the iteration variable \<open>v\<close> and
  encodes by mapping the element's encoding over the list.
\<close>

lemma ListDartType_part_000_distributes:
  "generateJsonDecoding_part_000 (ListDartType E) p =
     and_then (generateJsonDecoding_part_000 E ''v'') (\<lambda>d.
       Inr (''('' @ p @ '' as List<dynamic>).map((v) => '' @ d @ '').toList()'')) \<and>
   generateJsonEncoding_part_000 (ListDartType E) =
     and_then (generateJsonEncoding_part_000 E) (\<lambda>e.
       Inr (''.map((v) => v'' @ e @ '').toList()''))"
  by simp

text \<open>
  C9 fails in \<^verbatim>\<open>dart.ts\<close>. Decoding a list of \<open>int\<close> from the expression \<open>x\<close> applies the
  element's decoding to the whole input \<open>x\<close> inside the \<open>map\<close>, not to the iteration
  variable \<open>v\<close>; and the encoding of a list of \<open>DateTime\<close> is the element's encoding
  \<open>.toIso8601String()\<close> itself, which the generated code applies to the list, with no
  \<open>map\<close> over the elements. \<^verbatim>\<open>part_000\<close> produces the expressions the claim describes.
\<close>

theorem ListDartType_dart_ts_not_elementwise:
  "generateJsonDecoding_dart_ts (ListDartType (BuiltinDartType ''int'')) ''x'' =
     Inr ''(x as List<dynamic>).map((v) => x as int).toList()'' \<and>
   generateJsonDecoding_part_000 (ListDartType (BuiltinDartType ''int'')) ''x'' =
     Inr ''(x as List<dynamic>).map((v) => v as int).toList()'' \<and>
   generateJsonEncoding_dart_ts (ListDartType DatetimeDartType) = Inr ''.toIso8601String()'' \<and>
   generateJsonEncoding_part_000 (ListDartType DatetimeDartType) =
     Inr ''.map((v) => v.toIso8601String()).toList()''"
  by (simp add: and_then_def)

section \<open>Properties of the registry and of column types\<close>

lemma example_registry_built:
  "register_types buildDartTypeFromPostgresType_part_000 [example_int4] [] = Inr example_registry"
  by code_simp

text \<open>
  In \<^verbatim>\<open>part_000\<close> the insert variant of a column that is generated, an identity or has
  a default is the \<open>Nullable\<close> wrapping of its base type, and the function only reads the
  registry.
\<close>

lemma buildDartTypeFromPostgresColumn_insert_variant:
  assumes "\<not> col_is_nullable c"
    and "col_is_generated c \<or> col_is_identity c \<or> col_default_value c \<noteq> None"
    and "buildDartTypeFromPostgresColumn c ptdMap False = Inr d"
  shows "buildDartTypeFromPostgresColumn c ptdMap True = Inr (new_NullDartType d)"
  using assms
  by (auto simp add: buildDartTypeFromPostgresColumn_def and_then_def split: sum.splits if_splits)

text \<open>
  Names that the registry and the static table inherit from \<open>Object.prototype\<close>. A column
  whose format is such a name finds an inherited function in the registry, whose element
  \<open>[1]\<close> is \<open>undefined\<close>: the read does not throw, and the first method called on the
  result does. A type of such a name finds the inherited function in the static table,
  and that function is returned as its Dart type.
\<close>

lemma registry_inherited_names:
  "buildDartTypeFromPostgresColumn
     (example_quantity_column\<lparr>col_format := ''constructor''\<rparr>) example_registry False =
     Inr JSUndefined \<and>
   buildDartTypeFromPostgresColumn
     (example_quantity_column\<lparr>col_format := ''constructor''\<rparr>) example_registry True =
     Inr JSUndefined \<and>
   buildDartTypeFromPostgresColumn
     (example_id_column\<lparr>col_format := ''toString''\<rparr>) example_registry True =
     Inr (NullDartType JSUndefined) \<and>
   column_type_dart_ts (example_quantity_column\<lparr>col_format := ''constructor''\<rparr>) example_registry =
     Inr JSUndefined \<and>
   and_then (column_type_dart_ts (example_quantity_column\<lparr>col_format := ''constructor''\<rparr>)
       example_registry) generateType = Inl TypeError \<and>
   buildDartTypeFromPostgresColumn
     (example_quantity_column\<lparr>col_format := ''jsonb'', col_name := ''valueOf''\<rparr>)
     [(''jsonb'', (None, dynamic_map))] False = Inr JSUndefined"
  by code_simp

lemma static_table_inherited_names:
  "buildDartTypeFromPostgresType_part_000
     \<lparr>pg_id = 40, pg_name = ''constructor'', pg_attributes = [], pg_enums = [''a''], pg_comment = None\<rparr> [] =
     Inr (ObjectPrototypeMember ''constructor'') \<and>
   buildDartTypeFromPostgresType_part_000
     \<lparr>pg_id = 41, pg_name = ''_constructor'', pg_attributes = [], pg_enums = [], pg_comment = None\<rparr> [] =
     Inr (ListDartType (ObjectPrototypeMember ''constructor'')) \<and>
   generateType (ListDartType (ObjectPrototypeMember ''constructor'')) = Inl TypeError"
  by code_simp

text \<open>
  C4 fails in \<^verbatim>\<open>dart.ts\<close>. For a table with the identity column \<open>id\<close> and the plain column
  \<open>quantity\<close>, both \<open>int4\<close> and \<open>NOT NULL\<close>, computing the insert parameters assigns the
  wrapped type to the registry entry of \<open>int4\<close>: the entry is no longer the one that was
  registered, the insert parameter of \<open>quantity\<close> comes out nullable although the column
  has no default, and every later read of the base type of an \<open>int4\<close> column gives the
  nullable type. On the same input \<open>buildDartTypeFromPostgresColumn\<close> of \<^verbatim>\<open>part_000\<close> wraps
  only the identity column and leaves the registry alone.
\<close>

theorem forInsert_dart_ts_mutates_registry:
  "forInsert_types_dart_ts [example_id_column, example_quantity_column] example_registry =
     Inr ([NullDartType (BuiltinDartType ''int''), NullDartType (BuiltinDartType ''int'')],
          [(''23'', (Some example_int4, BuiltinDartType ''int'')),
           (''int4'', (Some example_int4, NullDartType (BuiltinDartType ''int'')))]) \<and>
   column_type_dart_ts example_quantity_column example_registry = Inr (BuiltinDartType ''int'') \<and>
   column_type_dart_ts example_quantity_column
     [(''23'', (Some example_int4, BuiltinDartType ''int'')),
      (''int4'', (Some example_int4, NullDartType (BuiltinDartType ''int'')))] =
     Inr (NullDartType (BuiltinDartType ''int'')) \<and>
   buildDartTypeFromPostgresColumn example_id_column example_registry True =
     Inr (NullDartType (BuiltinDartType ''int'')) \<and>
   buildDartTypeFromPostgresColumn example_quantity_column example_registry True =
     Inr (BuiltinDartType ''int'')"
  by code_simp

section \<open>Properties of enum comments\<close>

text \<open>
  In \<^verbatim>\<open>dart.ts\<close>, a comment that parses to an object with a \<open>translation\<close> object holding
  a table for each supported locale is valid exactly when every key of both tables is a
  value of the enum.
\<close>

lemma isEnumDartComment_tables:
  "isEnumDartComment
     (Some (JObject [(''translation'', JObject [(''en'', JObject en), (''it'', JObject it)])])) vals =
   Inr (set (map fst en) \<subseteq> set vals \<and> set (map fst it) \<subseteq> set vals)"
  by (auto simp add: isEnumDartComment_def isTranslation_def locale_covered_def js_in_def
      js_get_def Object_keys_def own_keys_def and_then_def SUPPORTED_LOCALES_def
      Object_prototype_names_def filter_empty_conv)

text \<open>
  C5 fails in \<^verbatim>\<open>dart.ts\<close>. The constructor calls \<open>JSON.parse\<close> on the comment outside any
  \<open>try\<close>: for a comment that is not JSON, such as a plain sentence, the SyntaxError
  leaves the constructor and no enum is built; for a comment that parses to \<open>null\<close> the
  test \<^verbatim>\<open>'translation' in comment\<close> throws a TypeError.
\<close>

theorem new_EnumDartConstruct_dart_ts_throws:
  "(JSON_parse text = None \<longrightarrow>
      new_EnumDartConstruct_dart_ts JSON_parse name vals (Some text) = Inl SyntaxError) \<and>
   (JSON_parse text = Some JNull \<longrightarrow>
      new_EnumDartConstruct_dart_ts JSON_parse name vals (Some text) = Inl TypeError)"
  by (simp add: new_EnumDartConstruct_dart_ts_def isEnumDartComment_def js_in_def and_then_def)

theorem new_EnumDartConstruct_dart_ts_throws_witness:
  "new_EnumDartConstruct_dart_ts (\<lambda>s. if s = ''null'' then Some JNull else None)
     ''status'' [''active'', ''done''] (Some ''Status of a task'') = Inl SyntaxError \<and>
   new_EnumDartConstruct_dart_ts (\<lambda>s. if s = ''null'' then Some JNull else None)
     ''status'' [''active'', ''done''] (Some ''null'') = Inl TypeError"
  using new_EnumDartConstruct_dart_ts_throws
          [of "\<lambda>s. if s = ''null'' then Some JNull else None" "''Status of a task''"
              "''status''" "[''active'', ''done'']"]
        new_EnumDartConstruct_dart_ts_throws
          [of "\<lambda>s. if s = ''null'' then Some JNull else None" "''null''"
              "''status''" "[''active'', ''done'']"]
  by simp

section \<open>Properties of the JSON schema builder\<close>

text \<open>Without a name an object schema falls back to the untyped map and registers nothing.\<close>

lemma buildDartTypeFromJsonschema_nameless_object:
  "typeof_object schema \<Longrightarrow>
   js_get schema ''type'' = Some (JString ''object'') \<Longrightarrow>
   truthy (js_get schema ''properties'') \<Longrightarrow>
   buildDartTypeFromJsonschema schema None ptdMap =
     Inr (MapDartType (BuiltinDartType ''String'') (BuiltinDartType ''dynamic''), ptdMap)"
  by (simp add: dynamic_map_def)

text \<open>
  The operator \<open>in\<close> also finds inherited names. With a property that is itself named
  \<open>required\<close>, the property \<open>constructor\<close> is found in the schema of that property, which
  inherits the name, and stays unwrapped. And the assignments under a property named
  \<open>__proto__\<close> create no property: the class gets no field for it, and the pair becomes
  the prototype of the registry.
\<close>

lemma required_inherited_names:
  "buildDartTypeFromJsonschema
     (Some (JObject
        [(''type'', JString ''object''),
         (''properties'', JObject
            [(''required'', JObject [(''type'', JString ''string'')]),
             (''constructor'', JObject [(''type'', JString ''string'')])])]))
     (Some ''payload'') [] =
   Inr (ClassDartConstructForJsonschema ''Payload''
          [(''required'', NullDartType (BuiltinDartType ''String'')),
           (''constructor'', BuiltinDartType ''String'')],
        [(''required'', None, NullDartType (BuiltinDartType ''String'')),
         (''constructor'', None, BuiltinDartType ''String'')])"
  by code_simp

lemma proto_property_assignment:
  "buildDartTypeFromJsonschema
     (Some (JObject
        [(''type'', JString ''object''),
         (''properties'', JObject [(''__proto__'', JObject [(''type'', JString ''string'')])])]))
     (Some ''payload'') [] =
   Inr (ClassDartConstructForJsonschema ''Payload'' [],
        [(''__proto__'', None, BuiltinDartType ''String'')]) \<and>
   element_1 [(''__proto__'', None, BuiltinDartType ''String'')] ''__proto__'' =
     Inr (BuiltinDartType ''String'') \<and>
   element_1 [(''__proto__'', None, BuiltinDartType ''String'')] ''1'' = Inr JSUndefined \<and>
   element_1 [(''__proto__'', None, BuiltinDartType ''String'')] ''0'' = Inl TypeError \<and>
   element_1 [(''__proto__'', None, BuiltinDartType ''String'')] ''length'' = Inr JSUndefined \<and>
   element_1 [] ''length'' = Inl TypeError"
  by code_simp

text \<open>
  C7 fails in \<^verbatim>\<open>part_000\<close>. The schema
  \<^verbatim>\<open>{"type":"object","properties":{"a":{"type":"string"},"b":{"type":"integer"}},"required":["b"]}\<close>
  built under the name \<open>payload\<close> lists only \<open>b\<close> as required, so \<open>a\<close> should be wrapped in
  \<open>Nullable\<close>. The code tests \<^verbatim>\<open>'required' in schema.properties\<close>, which is false here, and
  leaves both properties unwrapped: \<open>a\<close> is registered as the plain \<open>String\<close>.
\<close>

theorem buildDartTypeFromJsonschema_ignores_required_list:
  "buildDartTypeFromJsonschema
     (Some (JObject
        [(''type'', JString ''object''),
         (''properties'', JObject
            [(''a'', JObject [(''type'', JString ''string'')]),
             (''b'', JObject [(''type'', JString ''integer'')])]),
         (''required'', JArray [JString ''b''])]))
     (Some ''payload'') [] =
   Inr (ClassDartConstructForJsonschema ''Payload''
          [(''a'', BuiltinDartType ''String''), (''b'', BuiltinDartType ''int'')],
        [(''a'', None, BuiltinDartType ''String''), (''b'', None, BuiltinDartType ''int'')])"
  by code_simp

section \<open>Properties of the dependency sort\<close>

lemma appears_before_append1: "appears_before d t xs \<Longrightarrow> appears_before d t (xs @ ys)"
  by (induction xs) auto

lemma appears_before_snoc: "d \<in> set xs \<Longrightarrow> appears_before d t (xs @ [t])"
  by (induction xs) auto

lemma appears_before_append: "d \<in> set xs \<Longrightarrow> t \<in> set ys \<Longrightarrow> appears_before d t (xs @ ys)"
  by (induction xs) auto

lemma appears_before_append2: "appears_before d t ys \<Longrightarrow> appears_before d t (xs @ ys)"
  by (induction xs) auto

lemma appears_before_mem: "appears_before d t xs \<Longrightarrow> d \<in> set xs \<and> t \<in> set xs"
  by (induction xs) auto

lemma appears_before_filter:
  "appears_before d t xs \<Longrightarrow> P d \<Longrightarrow> P t \<Longrightarrow> appears_before d t (filter P xs)"
  by (induction xs) auto

lemma appears_before_map_inj:
  "appears_before (f d) (f t) (map f xs) \<Longrightarrow> inj_on f (set xs) \<Longrightarrow> d \<in> set xs \<Longrightarrow> t \<in> set xs \<Longrightarrow>
   appears_before d t xs"
proof (induction xs)
  case Nil
  then show ?case by simp
next
  case (Cons x xs)
  show ?case
  proof (cases "f x = f d \<and> f t \<in> f ` set xs")
    case True
    with Cons.prems have "x = d" by (auto dest: inj_onD)
    moreover from True Cons.prems have "t \<in> set xs"
      by (metis imageE inj_onD list.set_intros(2))
    ultimately show ?thesis by simp
  next
    case False
    with Cons.prems have ab: "appears_before (f d) (f t) (map f xs)" by auto
    then have "f d \<in> f ` set xs \<and> f t \<in> f ` set xs" using appears_before_mem [of "f d" "f t" "map f xs"] by simp
    with Cons.prems have "d \<in> set xs \<and> t \<in> set xs"
      by (metis imageE inj_onD list.set_intros(2))
    with Cons.IH ab Cons.prems show ?thesis by (auto simp add: inj_on_def)
  qed
qed

lemma appears_before_distinct_asym:
  "distinct xs \<Longrightarrow> appears_before d t xs \<Longrightarrow> \<not> appears_before t d xs"
  by (induction xs) (auto dest: appears_before_mem)

lemma same_graph_refl: "same_graph tm tm"
  by (simp add: same_graph_def)

lemma same_graph_trans: "same_graph a b \<Longrightarrow> same_graph b c \<Longrightarrow> same_graph a c"
  by (simp add: same_graph_def)

lemma dfs_frame_refl: "dfs_frame st st"
  by (simp add: dfs_frame_def same_graph_refl)

lemma dfs_frame_trans:
  assumes "dfs_frame a b" "dfs_frame b c"
  shows "dfs_frame a c"
proof -
  from assms have sg: "same_graph (typeMap a) (typeMap c)"
    by (auto simp add: dfs_frame_def intro: same_graph_trans)
  from assms have stk: "stacked (typeMap c) = stacked (typeMap a)"
    by (simp add: dfs_frame_def)
  from assms have vis: "visited_ids (typeMap a) \<subseteq> visited_ids (typeMap c)"
    by (auto simp add: dfs_frame_def)
  from assms have "visited_ids (typeMap c) \<inter> stacked (typeMap b) \<subseteq> visited_ids (typeMap b)"
    "stacked (typeMap b) = stacked (typeMap a)"
    "visited_ids (typeMap b) \<inter> stacked (typeMap a) \<subseteq> visited_ids (typeMap a)"
    by (simp_all add: dfs_frame_def)
  then have vs: "visited_ids (typeMap c) \<inter> stacked (typeMap a) \<subseteq> visited_ids (typeMap a)"
    by blast
  from assms obtain n1 n2 where "sorted_types b = sorted_types a @ n1" "sorted_types c = sorted_types b @ n2"
    by (auto simp add: dfs_frame_def)
  then have "sorted_types c = sorted_types a @ (n1 @ n2)" by simp
  then have "\<exists>new. sorted_types c = sorted_types a @ new" ..
  with sg stk vis vs show ?thesis by (simp add: dfs_frame_def)
qed

text \<open>The two assignments of dfs to a node.\<close>

lemma enter_facts:
  assumes "map_of tm k = Some node" "\<not> inStack node"
  shows "same_graph tm (AList.update k (node\<lparr>inStack := True\<rparr>) tm)"
    and "stacked (AList.update k (node\<lparr>inStack := True\<rparr>) tm) = insert k (stacked tm)"
    and "visited_ids (AList.update k (node\<lparr>inStack := True\<rparr>) tm) = visited_ids tm"
proof -
  from assms(1) have "k \<in> set (map fst tm)" by (auto dest!: map_of_SomeD intro: rev_image_eqI)
  with assms show "same_graph tm (AList.update k (node\<lparr>inStack := True\<rparr>) tm)"
    by (simp add: same_graph_def AList.update_keys AList.update_conv')
  show "stacked (AList.update k (node\<lparr>inStack := True\<rparr>) tm) = insert k (stacked tm)"
    by (auto simp add: stacked_def AList.update_conv')
  from assms show "visited_ids (AList.update k (node\<lparr>inStack := True\<rparr>) tm) = visited_ids tm"
    by (auto simp add: visited_ids_def AList.update_conv')
qed

lemma leave_facts:
  assumes "map_of tm k = Some node'" "node_type node' = node_type node" "dependencies node' = dependencies node"
  shows "same_graph tm (AList.update k (node\<lparr>visited := True, inStack := False\<rparr>) tm)"
    and "stacked (AList.update k (node\<lparr>visited := True, inStack := False\<rparr>) tm) = stacked tm - {k}"
    and "visited_ids (AList.update k (node\<lparr>visited := True, inStack := False\<rparr>) tm) = insert k (visited_ids tm)"
proof -
  from assms(1) have "k \<in> set (map fst tm)" by (auto dest!: map_of_SomeD intro: rev_image_eqI)
  with assms show "same_graph tm (AList.update k (node\<lparr>visited := True, inStack := False\<rparr>) tm)"
    by (simp add: same_graph_def AList.update_keys AList.update_conv')
  show "stacked (AList.update k (node\<lparr>visited := True, inStack := False\<rparr>) tm) = stacked tm - {k}"
    by (auto simp add: stacked_def AList.update_conv')
  show "visited_ids (AList.update k (node\<lparr>visited := True, inStack := False\<rparr>) tm) = insert k (visited_ids tm)"
    by (auto simp add: visited_ids_def AList.update_conv')
qed

lemma same_graph_node:
  assumes "same_graph tm tm'" "map_of tm k = Some node"
  shows "\<exists>node'. map_of tm' k = Some node' \<and> node_type node' = node_type node \<and>
           dependencies node' = dependencies node"
proof -
  from assms have a: "map_option node_type (map_of tm' k) = Some (node_type node)"
    and b: "map_option dependencies (map_of tm' k) = Some (dependencies node)"
    by (simp_all add: same_graph_def)
  then show ?thesis by (cases "map_of tm' k") auto
qed

lemma same_graph_dom: "same_graph tm tm' \<Longrightarrow> (map_of tm' k = None) = (map_of tm k = None)"
  by (metis same_graph_def option.map_disc_iff)

text \<open>The result of dfs on a fresh node, unfolded once.\<close>

lemma dfs_fresh:
  assumes "map_of (typeMap st) nodeId = Some node" "\<not> inStack node" "\<not> visited node"
  shows "dfs nodeId st =
     (case dfs_dependencies (dependencies node)
             (st\<lparr>typeMap := AList.update nodeId (node\<lparr>inStack := True\<rparr>) (typeMap st)\<rparr>) of
        Inl e \<Rightarrow> Inl e
      | Inr st' \<Rightarrow>
          Inr (st'\<lparr>typeMap :=
                     AList.update nodeId (node\<lparr>visited := True, inStack := False\<rparr>) (typeMap st'),
                   sorted_types := sorted_types st' @ [node_type node]\<rparr>))"
  using assms by simp

lemma dfs_not_fresh:
  "map_of (typeMap st) nodeId = None \<Longrightarrow> dfs nodeId st = Inr st"
  "map_of (typeMap st) nodeId = Some node \<Longrightarrow> inStack node \<Longrightarrow>
     dfs nodeId st = Inl (CircularDependency (pg_name (node_type node)))"
  "map_of (typeMap st) nodeId = Some node \<Longrightarrow> \<not> inStack node \<Longrightarrow> visited node \<Longrightarrow>
     dfs nodeId st = Inr st"
  by simp_all

declare dfs.simps [simp del]

lemma dfs_frame_holds:
  "dfs nodeId st = Inr st' \<Longrightarrow> dfs_frame st st'"
  "dfs_dependencies deps st = Inr st' \<Longrightarrow> dfs_frame st st'"
proof (induction nodeId st and deps st arbitrary: st' and st' rule: dfs_dfs_dependencies.induct)
  case (1 nodeId st)
  show ?case
  proof (cases "map_of (typeMap st) nodeId")
    case None
    with "1.prems" show ?thesis by (simp add: dfs_not_fresh dfs_frame_refl)
  next
    case (Some node)
    show ?thesis
    proof (cases "inStack node")
      case True
      with Some "1.prems" show ?thesis by (simp add: dfs_not_fresh)
    next
      case False
      note ns = this
      show ?thesis
      proof (cases "visited node")
        case True
        with ns Some "1.prems" show ?thesis by (simp add: dfs_not_fresh dfs_frame_refl)
      next
        case False
        let ?st1 = "st\<lparr>typeMap := AList.update nodeId (node\<lparr>inStack := True\<rparr>) (typeMap st)\<rparr>"
        from "1.prems" dfs_fresh [OF Some ns False] obtain st2 where
          st2: "dfs_dependencies (dependencies node) ?st1 = Inr st2" and
          st': "st' = st2\<lparr>typeMap :=
                            AList.update nodeId (node\<lparr>visited := True, inStack := False\<rparr>) (typeMap st2),
                          sorted_types := sorted_types st2 @ [node_type node]\<rparr>"
          by (cases "dfs_dependencies (dependencies node) ?st1") auto
        from "1.IH" [OF Some ns False st2] have f12: "dfs_frame ?st1 st2" .
        note e = enter_facts [OF Some ns]
        from f12 e have sg2: "same_graph (typeMap st) (typeMap st2)"
          by (auto simp add: dfs_frame_def intro: same_graph_trans)
        from same_graph_node [OF sg2 Some] obtain node2 where
          n2: "map_of (typeMap st2) nodeId = Some node2" "node_type node2 = node_type node"
              "dependencies node2 = dependencies node" by blast
        note l = leave_facts [OF n2]
        from sg2 l(1) have sg: "same_graph (typeMap st) (typeMap st')"
          by (auto simp add: st' intro: same_graph_trans)
        from f12 e have stk2: "stacked (typeMap st2) = insert nodeId (stacked (typeMap st))"
          by (simp add: dfs_frame_def)
        from Some ns have nstk: "nodeId \<notin> stacked (typeMap st)" by (simp add: stacked_def)
        from stk2 l(2) nstk have stk: "stacked (typeMap st') = stacked (typeMap st)"
          by (auto simp add: st')
        from f12 e have vis2: "visited_ids (typeMap st) \<subseteq> visited_ids (typeMap st2)"
          by (simp add: dfs_frame_def)
        with l(3) have vis: "visited_ids (typeMap st) \<subseteq> visited_ids (typeMap st')"
          by (auto simp add: st')
        from f12 e have "visited_ids (typeMap st2) \<inter> insert nodeId (stacked (typeMap st)) \<subseteq> visited_ids (typeMap st)"
          by (simp add: dfs_frame_def)
        with l(3) nstk have vs: "visited_ids (typeMap st') \<inter> stacked (typeMap st) \<subseteq> visited_ids (typeMap st)"
          by (auto simp add: st')
        from f12 obtain new where "sorted_types st2 = sorted_types st @ new"
          by (auto simp add: dfs_frame_def)
        then have "sorted_types st' = sorted_types st @ (new @ [node_type node])" by (simp add: st')
        then have "\<exists>new. sorted_types st' = sorted_types st @ new" ..
        with sg stk vis vs show ?thesis by (simp add: dfs_frame_def)
      qed
    qed
  qed
next
  case (2 st)
  then show ?case by (simp add: dfs_frame_refl)
next
  case (3 depId rest st)
  from "3.prems" obtain st1 where
    st1: "dfs depId st = Inr st1" and rest: "dfs_dependencies rest st1 = Inr st'"
    by (cases "dfs depId st") auto
  from "3.IH"(1) [OF st1] "3.IH"(2) [OF st1 rest] show ?case by (rule dfs_frame_trans)
qed

lemma dfs_visits_node:
  assumes "dfs nodeId st = Inr st'" "map_of (typeMap st) nodeId \<noteq> None"
  shows "nodeId \<in> visited_ids (typeMap st')"
proof -
  from assms(2) obtain node where Some: "map_of (typeMap st) nodeId = Some node" by auto
  show ?thesis
  proof (cases "inStack node")
    case True
    with Some assms(1) show ?thesis by (simp add: dfs_not_fresh)
  next
    case False
    note ns = this
    show ?thesis
    proof (cases "visited node")
      case True
      with ns Some assms(1) show ?thesis by (auto simp add: dfs_not_fresh visited_ids_def)
    next
      case False
      let ?st1 = "st\<lparr>typeMap := AList.update nodeId (node\<lparr>inStack := True\<rparr>) (typeMap st)\<rparr>"
      from assms(1) dfs_fresh [OF Some ns False] obtain st2 where
        st': "st' = st2\<lparr>typeMap :=
                          AList.update nodeId (node\<lparr>visited := True, inStack := False\<rparr>) (typeMap st2),
                        sorted_types := sorted_types st2 @ [node_type node]\<rparr>"
        by (cases "dfs_dependencies (dependencies node) ?st1") auto
      show ?thesis by (simp add: st' visited_ids_def AList.update_conv')
    qed
  qed
qed

lemma dfs_frame_dom: "dfs_frame st st' \<Longrightarrow> (map_of (typeMap st') k = None) = (map_of (typeMap st) k = None)"
  by (simp add: dfs_frame_def same_graph_dom)

lemma dfs_dependencies_visits:
  "dfs_dependencies deps st = Inr st' \<Longrightarrow> d \<in> set deps \<Longrightarrow> map_of (typeMap st) d \<noteq> None \<Longrightarrow>
   d \<in> visited_ids (typeMap st')"
proof (induction deps arbitrary: st)
  case Nil
  then show ?case by simp
next
  case (Cons depId rest)
  from Cons.prems(1) obtain st1 where
    st1: "dfs depId st = Inr st1" and rest: "dfs_dependencies rest st1 = Inr st'"
    by (cases "dfs depId st") auto
  have f1: "dfs_frame st st1" using st1 by (rule dfs_frame_holds(1))
  have f2: "dfs_frame st1 st'" using rest by (rule dfs_frame_holds(2))
  show ?case
  proof (cases "d = depId")
    case True
    with st1 Cons.prems(3) have "d \<in> visited_ids (typeMap st1)" by (auto intro: dfs_visits_node)
    with f2 show ?thesis by (auto simp add: dfs_frame_def)
  next
    case False
    with Cons.prems(2) have "d \<in> set rest" by simp
    moreover from Cons.prems(3) f1 have "map_of (typeMap st1) d \<noteq> None" by (simp add: dfs_frame_dom)
    ultimately show ?thesis using rest by (auto intro: Cons.IH)
  qed
qed

lemma dfs_inv_keys: "dfs_inv st \<Longrightarrow> map_of (typeMap st) k = Some n \<Longrightarrow> pg_id (node_type n) = k"
  unfolding dfs_inv_def by (elim conjE allE [of _ k]) (erule allE [of _ n], erule mp)

lemma dfs_inv_ids: "dfs_inv st \<Longrightarrow> set (map pg_id (sorted_types st)) = visited_ids (typeMap st)"
  unfolding dfs_inv_def by (elim conjE)

lemma dfs_inv_distinct: "dfs_inv st \<Longrightarrow> distinct (map pg_id (sorted_types st))"
  unfolding dfs_inv_def by (elim conjE)

lemma dfs_inv_sorted:
  "dfs_inv st \<Longrightarrow> t \<in> set (sorted_types st) \<Longrightarrow>
   map_option node_type (map_of (typeMap st) (pg_id t)) = Some t"
  unfolding dfs_inv_def by (elim conjE) (erule bspec)

lemma dfs_inv_topo:
  assumes "dfs_inv st" "map_of (typeMap st) k = Some n" "visited n" "d \<in> set (dependencies n)"
    "map_of (typeMap st) d \<noteq> None"
  shows "appears_before d k (map pg_id (sorted_types st))"
proof -
  from assms(1) have "\<forall>k n d. map_of (typeMap st) k = Some n \<and> visited n \<and> d \<in> set (dependencies n) \<and>
        map_of (typeMap st) d \<noteq> None \<longrightarrow> appears_before d k (map pg_id (sorted_types st))"
    unfolding dfs_inv_def by (elim conjE)
  then have "map_of (typeMap st) k = Some n \<and> visited n \<and> d \<in> set (dependencies n) \<and>
        map_of (typeMap st) d \<noteq> None \<longrightarrow> appears_before d k (map pg_id (sorted_types st))"
    by (elim allE)
  with assms show ?thesis by (elim impE) (intro conjI)
qed

lemma dfs_invI:
  assumes "\<And>k n. map_of (typeMap st) k = Some n \<Longrightarrow> pg_id (node_type n) = k"
    and "set (map pg_id (sorted_types st)) = visited_ids (typeMap st)"
    and "distinct (map pg_id (sorted_types st))"
    and "\<And>t. t \<in> set (sorted_types st) \<Longrightarrow> map_option node_type (map_of (typeMap st) (pg_id t)) = Some t"
    and "\<And>k n d. map_of (typeMap st) k = Some n \<Longrightarrow> visited n \<Longrightarrow> d \<in> set (dependencies n) \<Longrightarrow>
           map_of (typeMap st) d \<noteq> None \<Longrightarrow> appears_before d k (map pg_id (sorted_types st))"
  shows "dfs_inv st"
  unfolding dfs_inv_def
proof (intro conjI allI ballI impI)
  fix k n assume "map_of (typeMap st) k = Some n"
  then show "pg_id (node_type n) = k" by (rule assms(1))
next
  show "set (map pg_id (sorted_types st)) = visited_ids (typeMap st)" by (rule assms(2))
next
  show "distinct (map pg_id (sorted_types st))" by (rule assms(3))
next
  fix t assume "t \<in> set (sorted_types st)"
  then show "map_option node_type (map_of (typeMap st) (pg_id t)) = Some t" by (rule assms(4))
next
  fix k n d
  assume "map_of (typeMap st) k = Some n \<and> visited n \<and> d \<in> set (dependencies n) \<and>
        map_of (typeMap st) d \<noteq> None"
  then show "appears_before d k (map pg_id (sorted_types st))"
    by (elim conjE) (rule assms(5))
qed

lemma map_of_update_dom:
  "map_of tm k = Some v \<Longrightarrow> (map_of (AList.update k v' tm) d \<noteq> None) = (map_of tm d \<noteq> None)"
  by (simp add: AList.update_conv')

lemma dfs_inv_enter:
  assumes inv: "dfs_inv st" and node: "map_of (typeMap st) k = Some node" and ns: "\<not> inStack node"
  shows "dfs_inv (st\<lparr>typeMap := AList.update k (node\<lparr>inStack := True\<rparr>) (typeMap st)\<rparr>)"
proof (rule dfs_invI)
  let ?tm = "typeMap st"
  let ?st1 = "st\<lparr>typeMap := AList.update k (node\<lparr>inStack := True\<rparr>) (typeMap st)\<rparr>"
  show "pg_id (node_type n) = k'" if h: "map_of (typeMap ?st1) k' = Some n" for k' n
  proof (cases "k' = k")
    case True
    with h have "n = node\<lparr>inStack := True\<rparr>" by (simp add: AList.update_conv')
    with True dfs_inv_keys [OF inv node] show ?thesis by simp
  next
    case False
    with h have "map_of ?tm k' = Some n" by (simp add: AList.update_conv')
    with inv show ?thesis by (rule dfs_inv_keys)
  qed
  show "set (map pg_id (sorted_types ?st1)) = visited_ids (typeMap ?st1)"
    using dfs_inv_ids [OF inv] enter_facts(3) [OF node ns] by simp
  show "distinct (map pg_id (sorted_types ?st1))"
    using dfs_inv_distinct [OF inv] by simp
  show "map_option node_type (map_of (typeMap ?st1) (pg_id t)) = Some t"
    if "t \<in> set (sorted_types ?st1)" for t
  proof -
    from that have "t \<in> set (sorted_types st)" by simp
    with inv have a: "map_option node_type (map_of ?tm (pg_id t)) = Some t" by (rule dfs_inv_sorted)
    show ?thesis
    proof (cases "pg_id t = k")
      case True
      with a node show ?thesis by (simp add: AList.update_conv')
    next
      case False
      with a show ?thesis by (simp add: AList.update_conv')
    qed
  qed
  show "appears_before d k' (map pg_id (sorted_types ?st1))"
    if h: "map_of (typeMap ?st1) k' = Some n" "visited n" "d \<in> set (dependencies n)"
      "map_of (typeMap ?st1) d \<noteq> None" for k' n d
  proof -
    from h(4) node have dd: "map_of ?tm d \<noteq> None" by (simp add: AList.update_conv' split: if_splits)
    have "appears_before d k' (map pg_id (sorted_types st))"
    proof (cases "k' = k")
      case True
      with h(1) have n: "n = node\<lparr>inStack := True\<rparr>" by (simp add: AList.update_conv')
      with h(2,3) have "visited node" "d \<in> set (dependencies node)" by simp_all
      with inv node True dd show ?thesis by (auto intro: dfs_inv_topo)
    next
      case False
      with h(1) have "map_of ?tm k' = Some n" by (simp add: AList.update_conv')
      with inv show ?thesis using h(2,3) dd by (rule dfs_inv_topo)
    qed
    then show ?thesis by simp
  qed
qed

lemma dfs_inv_leave:
  assumes inv: "dfs_inv st"
    and node2: "map_of (typeMap st) k = Some node2"
    and same: "node_type node2 = node_type node" "dependencies node2 = dependencies node"
    and fresh: "k \<notin> visited_ids (typeMap st)"
    and deps: "\<And>d. d \<in> set (dependencies node) \<Longrightarrow> map_of (typeMap st) d \<noteq> None \<Longrightarrow> d \<in> visited_ids (typeMap st)"
  shows "dfs_inv (st\<lparr>typeMap := AList.update k (node\<lparr>visited := True, inStack := False\<rparr>) (typeMap st),
                     sorted_types := sorted_types st @ [node_type node]\<rparr>)"
proof (rule dfs_invI)
  let ?tm = "typeMap st"
  let ?st' = "st\<lparr>typeMap := AList.update k (node\<lparr>visited := True, inStack := False\<rparr>) (typeMap st),
                     sorted_types := sorted_types st @ [node_type node]\<rparr>"
  let ?ids = "map pg_id (sorted_types st)"
  from dfs_inv_keys [OF inv node2] same have idk: "pg_id (node_type node) = k" by simp
  note ids = dfs_inv_ids [OF inv]
  note dist = dfs_inv_distinct [OF inv]
  show "pg_id (node_type n) = k'" if h: "map_of (typeMap ?st') k' = Some n" for k' n
  proof (cases "k' = k")
    case True
    with h have "n = node\<lparr>visited := True, inStack := False\<rparr>" by (simp add: AList.update_conv')
    with True idk show ?thesis by simp
  next
    case False
    with h have "map_of ?tm k' = Some n" by (simp add: AList.update_conv')
    with inv show ?thesis by (rule dfs_inv_keys)
  qed
  show "set (map pg_id (sorted_types ?st')) = visited_ids (typeMap ?st')"
    using ids idk leave_facts(3) [OF node2 same] by simp
  show "distinct (map pg_id (sorted_types ?st'))"
    using dist ids idk fresh by simp
  show "map_option node_type (map_of (typeMap ?st') (pg_id t)) = Some t"
    if "t \<in> set (sorted_types ?st')" for t
  proof -
    from that consider "t \<in> set (sorted_types st)" | "t = node_type node" by auto
    then show ?thesis
    proof cases
      case 1
      then have "pg_id t \<in> set ?ids" by simp
      with ids fresh have "pg_id t \<noteq> k" by auto
      with dfs_inv_sorted [OF inv 1] show ?thesis by (simp add: AList.update_conv')
    next
      case 2
      with idk show ?thesis by (simp add: AList.update_conv')
    qed
  qed
  show "appears_before d k' (map pg_id (sorted_types ?st'))"
    if h: "map_of (typeMap ?st') k' = Some n" "visited n" "d \<in> set (dependencies n)"
      "map_of (typeMap ?st') d \<noteq> None" for k' n d
  proof -
    from h(4) node2 have dd: "map_of ?tm d \<noteq> None" by (simp add: AList.update_conv' split: if_splits)
    have "appears_before d k' (?ids @ [k])"
    proof (cases "k' = k")
      case True
      with h(1) have "n = node\<lparr>visited := True, inStack := False\<rparr>" by (simp add: AList.update_conv')
      with h(3) have "d \<in> set (dependencies node)" by simp
      then have "d \<in> visited_ids ?tm" using dd by (rule deps)
      with ids have "d \<in> set ?ids" by simp
      then have "appears_before d k (?ids @ [k])" by (rule appears_before_snoc)
      with True show ?thesis by simp
    next
      case False
      with h(1) have "map_of ?tm k' = Some n" by (simp add: AList.update_conv')
      with inv have "appears_before d k' ?ids" using h(2,3) dd by (rule dfs_inv_topo)
      then show ?thesis by (rule appears_before_append1)
    qed
    with idk show ?thesis by simp
  qed
qed

lemma dfs_inv_holds:
  "dfs nodeId st = Inr st' \<Longrightarrow> dfs_inv st \<Longrightarrow> dfs_inv st'"
  "dfs_dependencies deps st = Inr st' \<Longrightarrow> dfs_inv st \<Longrightarrow> dfs_inv st'"
proof (induction nodeId st and deps st arbitrary: st' and st' rule: dfs_dfs_dependencies.induct)
  case (1 nodeId st)
  show ?case
  proof (cases "map_of (typeMap st) nodeId")
    case None
    with "1.prems" show ?thesis by (simp add: dfs_not_fresh)
  next
    case (Some node)
    show ?thesis
    proof (cases "inStack node")
      case True
      with Some "1.prems" show ?thesis by (simp add: dfs_not_fresh)
    next
      case False
      note ns = this
      show ?thesis
      proof (cases "visited node")
        case True
        with ns Some "1.prems" show ?thesis by (simp add: dfs_not_fresh)
      next
        case False
        let ?st1 = "st\<lparr>typeMap := AList.update nodeId (node\<lparr>inStack := True\<rparr>) (typeMap st)\<rparr>"
        from "1.prems"(1) dfs_fresh [OF Some ns False] obtain st2 where
          st2: "dfs_dependencies (dependencies node) ?st1 = Inr st2" and
          st': "st' = st2\<lparr>typeMap :=
                            AList.update nodeId (node\<lparr>visited := True, inStack := False\<rparr>) (typeMap st2),
                          sorted_types := sorted_types st2 @ [node_type node]\<rparr>"
          by (cases "dfs_dependencies (dependencies node) ?st1") auto
        have inv1: "dfs_inv ?st1" using "1.prems"(2) Some ns by (rule dfs_inv_enter)
        from "1.IH" [OF Some ns False st2 inv1] have inv2: "dfs_inv st2" .
        have f12: "dfs_frame ?st1 st2" using st2 by (rule dfs_frame_holds(2))
        note e = enter_facts [OF Some ns]
        from f12 e have sg2: "same_graph (typeMap st) (typeMap st2)"
          by (auto simp add: dfs_frame_def intro: same_graph_trans)
        from same_graph_node [OF sg2 Some] obtain node2 where
          n2: "map_of (typeMap st2) nodeId = Some node2" "node_type node2 = node_type node"
              "dependencies node2 = dependencies node" by blast
        from f12 e have "visited_ids (typeMap st2) \<inter> insert nodeId (stacked (typeMap st)) \<subseteq> visited_ids (typeMap st)"
          by (simp add: dfs_frame_def)
        moreover from Some False have "nodeId \<notin> visited_ids (typeMap st)" by (simp add: visited_ids_def)
        ultimately have fresh: "nodeId \<notin> visited_ids (typeMap st2)" by auto
        have deps: "d \<in> visited_ids (typeMap st2)"
          if d: "d \<in> set (dependencies node)" and "map_of (typeMap st2) d \<noteq> None" for d
        proof -
          from that f12 have "map_of (typeMap ?st1) d \<noteq> None" by (simp add: dfs_frame_dom)
          with st2 d show ?thesis by (rule dfs_dependencies_visits)
        qed
        show ?thesis unfolding st' using inv2 n2 fresh deps by (rule dfs_inv_leave)
      qed
    qed
  qed
next
  case (2 st)
  then show ?case by simp
next
  case (3 depId rest st)
  from "3.prems"(1) obtain st1 where
    st1: "dfs depId st = Inr st1" and rest: "dfs_dependencies rest st1 = Inr st'"
    by (cases "dfs depId st") auto
  from "3.IH"(1) [OF st1 "3.prems"(2)] have "dfs_inv st1" .
  with "3.IH"(2) [OF st1 rest] show ?case .
qed

lemma visit_all_frame: "visit_all ks st = Inr st' \<Longrightarrow> dfs_frame st st'"
proof (induction ks arbitrary: st)
  case Nil
  then show ?case by (simp add: dfs_frame_refl)
next
  case (Cons k ks)
  from Cons.prems obtain node where node: "map_of (typeMap st) k = Some node"
    by (cases "map_of (typeMap st) k") auto
  show ?case
  proof (cases "visited node")
    case True
    with node Cons.prems have "visit_all ks st = Inr st'" by simp
    then show ?thesis by (rule Cons.IH)
  next
    case False
    with node Cons.prems obtain st1 where
      st1: "dfs k st = Inr st1" and rest: "visit_all ks st1 = Inr st'"
      by (cases "dfs k st") auto
    from dfs_frame_holds(1) [OF st1] Cons.IH [OF rest] show ?thesis by (rule dfs_frame_trans)
  qed
qed

lemma visit_all_inv: "visit_all ks st = Inr st' \<Longrightarrow> dfs_inv st \<Longrightarrow> dfs_inv st'"
proof (induction ks arbitrary: st)
  case Nil
  then show ?case by simp
next
  case (Cons k ks)
  from Cons.prems(1) obtain node where node: "map_of (typeMap st) k = Some node"
    by (cases "map_of (typeMap st) k") auto
  show ?case
  proof (cases "visited node")
    case True
    with node Cons.prems(1) have "visit_all ks st = Inr st'" by simp
    then show ?thesis using Cons.prems(2) by (rule Cons.IH)
  next
    case False
    with node Cons.prems(1) obtain st1 where
      st1: "dfs k st = Inr st1" and rest: "visit_all ks st1 = Inr st'"
      by (cases "dfs k st") auto
    from dfs_inv_holds(1) [OF st1 Cons.prems(2)] have "dfs_inv st1" .
    with rest show ?thesis by (rule Cons.IH)
  qed
qed

lemma visit_all_visits:
  "visit_all ks st = Inr st' \<Longrightarrow> k \<in> set ks \<Longrightarrow> k \<in> visited_ids (typeMap st')"
proof (induction ks arbitrary: st)
  case Nil
  then show ?case by simp
next
  case (Cons k0 ks)
  from Cons.prems(1) obtain node where node: "map_of (typeMap st) k0 = Some node"
    by (cases "map_of (typeMap st) k0") auto
  show ?case
  proof (cases "visited node")
    case True
    with node Cons.prems(1) have rest: "visit_all ks st = Inr st'" by simp
    show ?thesis
    proof (cases "k = k0")
      case True
      with node \<open>visited node\<close> have "k \<in> visited_ids (typeMap st)" by (auto simp add: visited_ids_def)
      with visit_all_frame [OF rest] show ?thesis by (auto simp add: dfs_frame_def)
    next
      case False
      with Cons.prems(2) have "k \<in> set ks" by simp
      with rest show ?thesis by (rule Cons.IH)
    qed
  next
    case False
    with node Cons.prems(1) obtain st1 where
      st1: "dfs k0 st = Inr st1" and rest: "visit_all ks st1 = Inr st'"
      by (cases "dfs k0 st") auto
    show ?thesis
    proof (cases "k = k0")
      case True
      with st1 node have "k \<in> visited_ids (typeMap st1)" by (auto intro: dfs_visits_node)
      with visit_all_frame [OF rest] show ?thesis by (auto simp add: dfs_frame_def)
    next
      case False
      with Cons.prems(2) have "k \<in> set ks" by simp
      with rest show ?thesis by (rule Cons.IH)
    qed
  qed
qed

text \<open>The initial map.\<close>

lemma set_Set_add: "set (Set_add x s) = insert x (set s)"
  by (auto simp add: Set_add_def)

lemma set_foldl_Set_add: "set (foldl (\<lambda>s x. Set_add x s) s0 xs) = set s0 \<union> set xs"
  by (induction xs arbitrary: s0) (auto simp add: set_Set_add)

lemma set_new_Set: "set (new_Set xs) = set xs"
  by (simp add: new_Set_def set_foldl_Set_add)

lemma distinct_Set_add: "distinct s \<Longrightarrow> distinct (Set_add x s)"
  by (simp add: Set_add_def)

lemma foldl_update_untouched:
  "k \<notin> f ` set xs \<Longrightarrow> map_of (foldl (\<lambda>m x. AList.update (f x) (g x) m) m0 xs) k = map_of m0 k"
  by (induction xs arbitrary: m0) (auto simp add: AList.update_conv')

lemma foldl_update_origin:
  "map_of (foldl (\<lambda>m x. AList.update (f x) (g x) m) m0 xs) k = Some v \<Longrightarrow>
   map_of m0 k = Some v \<or> (\<exists>x \<in> set xs. f x = k \<and> g x = v)"
proof (induction xs arbitrary: m0)
  case Nil
  then show ?case by simp
next
  case (Cons x xs)
  from Cons.IH [of "AList.update (f x) (g x) m0"] Cons.prems
  have "map_of (AList.update (f x) (g x) m0) k = Some v \<or> (\<exists>x \<in> set xs. f x = k \<and> g x = v)"
    by simp
  then show ?case by (auto simp add: AList.update_conv' split: if_splits)
qed

lemma foldl_update_distinct:
  "distinct (map f xs) \<Longrightarrow> x \<in> set xs \<Longrightarrow>
   map_of (foldl (\<lambda>m x. AList.update (f x) (g x) m) m0 xs) (f x) = Some (g x)"
proof (induction xs arbitrary: m0)
  case Nil
  then show ?case by simp
next
  case (Cons y ys)
  show ?case
  proof (cases "x = y")
    case True
    with Cons.prems have "f x \<notin> f ` set ys" by auto
    then have "map_of (foldl (\<lambda>m x. AList.update (f x) (g x) m) (AList.update (f y) (g y) m0) ys) (f x)
        = map_of (AList.update (f y) (g y) m0) (f x)" by (rule foldl_update_untouched)
    with True show ?thesis by (simp add: AList.update_conv')
  next
    case False
    with Cons.prems have "distinct (map f ys)" "x \<in> set ys" by simp_all
    then show ?thesis by (simp add: Cons.IH)
  qed
qed

lemma foldl_update_keys:
  "fst ` set (foldl (\<lambda>m x. AList.update (f x) (g x) m) m0 xs) = fst ` set m0 \<union> f ` set xs"
  by (induction xs arbitrary: m0) (auto simp add: AList.dom_update)

lemma foldl_update_distinct_keys:
  "distinct (map fst m0) \<Longrightarrow> distinct (map fst (foldl (\<lambda>m x. AList.update (f x) (g x) m) m0 xs))"
  by (induction xs arbitrary: m0) (auto simp add: AList.distinct_update)

lemma initial_typeMap_keys: "set (map fst (initial_typeMap types)) = pg_id ` set types"
  using foldl_update_keys [of pg_id new_TypeNode "[]" types] by (simp add: initial_typeMap_def)

lemma initial_typeMap_origin:
  "map_of (initial_typeMap types) k = Some n \<Longrightarrow> \<exists>t \<in> set types. pg_id t = k \<and> n = new_TypeNode t"
  using foldl_update_origin [of pg_id new_TypeNode "[]" types k n] by (auto simp add: initial_typeMap_def)

lemma initial_typeMap_distinct:
  "distinct (map pg_id types) \<Longrightarrow> t \<in> set types \<Longrightarrow>
   map_of (initial_typeMap types) (pg_id t) = Some (new_TypeNode t)"
  unfolding initial_typeMap_def by (rule foldl_update_distinct)

lemma initial_visited: "visited_ids (initial_typeMap types) = {}"
  by (auto simp add: visited_ids_def new_TypeNode_def dest!: initial_typeMap_origin)

lemma initial_stacked: "stacked (initial_typeMap types) = {}"
  by (auto simp add: stacked_def new_TypeNode_def dest!: initial_typeMap_origin)

lemma initial_inv: "dfs_inv \<lparr>typeMap = initial_typeMap types, sorted_types = []\<rparr>"
proof (rule dfs_invI)
  fix k n
  assume "map_of (typeMap \<lparr>typeMap = initial_typeMap types, sorted_types = []\<rparr>) k = Some n"
  then show "pg_id (node_type n) = k"
    by (auto simp add: new_TypeNode_def dest!: initial_typeMap_origin)
next
  fix k n d
  assume "map_of (typeMap \<lparr>typeMap = initial_typeMap types, sorted_types = []\<rparr>) k = Some n" "visited n"
  then show "appears_before d k (map pg_id (sorted_types \<lparr>typeMap = initial_typeMap types, sorted_types = []\<rparr>))"
    by (auto simp add: new_TypeNode_def dest!: initial_typeMap_origin)
qed (simp_all add: initial_visited)

text \<open>The final sort.\<close>

lemma insert_by_arrays_last:
  assumes "\<forall>t \<in> set ns. \<not> array_marked t" "\<forall>t \<in> set as. array_marked t"
  shows "insert_by arrays_last x (ns @ as) = (if array_marked x then ns @ as @ [x] else ns @ x # as)"
  using assms
proof (induction ns)
  case Nil
  from Nil(2) show ?case
  proof (induction as)
    case Nil
    show ?case by simp
  next
    case (Cons a as)
    then show ?case by (simp add: arrays_last_def array_marked_def)
  qed
next
  case (Cons n ns)
  then show ?case by (simp add: arrays_last_def array_marked_def)
qed

lemma foldl_insert_by_arrays_last:
  "foldl (\<lambda>acc x. insert_by arrays_last x acc)
     (filter (\<lambda>t. \<not> array_marked t) ys @ filter array_marked ys) xs =
   filter (\<lambda>t. \<not> array_marked t) (ys @ xs) @ filter array_marked (ys @ xs)"
proof (induction xs arbitrary: ys)
  case Nil
  show ?case by simp
next
  case (Cons x xs)
  have "insert_by arrays_last x (filter (\<lambda>t. \<not> array_marked t) ys @ filter array_marked ys) =
      filter (\<lambda>t. \<not> array_marked t) (ys @ [x]) @ filter array_marked (ys @ [x])"
    by (simp add: insert_by_arrays_last)
  with Cons.IH [of "ys @ [x]"] show ?case by simp
qed

lemma Array_sort_arrays_last:
  "Array_sort arrays_last xs = filter (\<lambda>t. \<not> array_marked t) xs @ filter array_marked xs"
  using foldl_insert_by_arrays_last [of "[]" xs] by (simp add: Array_sort_def)

lemma sortTypesByDependency_Inr:
  assumes "sortTypesByDependency types = Inr out"
  obtains st where
    "visit_all (map fst (initial_typeMap types)) \<lparr>typeMap = initial_typeMap types, sorted_types = []\<rparr> = Inr st"
    "out = filter (\<lambda>t. \<not> array_marked t) (sorted_types st) @ filter array_marked (sorted_types st)"
proof -
  let ?st0 = "\<lparr>typeMap = initial_typeMap types, sorted_types = []\<rparr>"
  from assms obtain st where st: "visit_all (map fst (initial_typeMap types)) ?st0 = Inr st"
    and out: "out = Array_sort arrays_last (sorted_types st)"
    by (cases "visit_all (map fst (initial_typeMap types)) ?st0")
       (auto simp add: sortTypesByDependency_def Let_def)
  from st out that show ?thesis by (simp add: Array_sort_arrays_last)
qed

lemma dfs_order:
  assumes dist: "distinct (map pg_id types)"
    and st: "visit_all (map fst (initial_typeMap types))
               \<lparr>typeMap = initial_typeMap types, sorted_types = []\<rparr> = Inr st"
  shows "set (sorted_types st) = set types"
    and "distinct (map pg_id (sorted_types st))"
    and "\<And>T D. T \<in> set types \<Longrightarrow> D \<in> set types \<Longrightarrow>
           pg_id D \<in> set (map attr_type_id (pg_attributes T)) \<Longrightarrow> pg_id D \<noteq> pg_id T \<Longrightarrow>
           appears_before D T (sorted_types st)"
proof -
  let ?tm0 = "initial_typeMap types"
  let ?st0 = "\<lparr>typeMap = ?tm0, sorted_types = []\<rparr>"
  have inv: "dfs_inv st" using st initial_inv by (rule visit_all_inv)
  have frame: "dfs_frame ?st0 st" using st by (rule visit_all_frame)
  then have sg: "same_graph ?tm0 (typeMap st)" by (simp add: dfs_frame_def)
  have vis: "pg_id t \<in> visited_ids (typeMap st)" if "t \<in> set types" for t
  proof -
    from that have "pg_id t \<in> set (map fst ?tm0)" unfolding initial_typeMap_keys by simp
    with st show ?thesis by (rule visit_all_visits)
  qed
  have node: "\<exists>n. map_of (typeMap st) (pg_id t) = Some n \<and> visited n \<and> node_type n = t \<and>
                dependencies n = dependencies (new_TypeNode t)" if "t \<in> set types" for t
  proof -
    from vis [OF that] obtain n where n: "map_of (typeMap st) (pg_id t) = Some n" "visited n"
      by (auto simp add: visited_ids_def)
    from initial_typeMap_distinct [OF dist that] same_graph_node [OF sg]
    obtain n' where "map_of (typeMap st) (pg_id t) = Some n'" "node_type n' = node_type (new_TypeNode t)"
      "dependencies n' = dependencies (new_TypeNode t)" by blast
    with n show ?thesis by (simp add: new_TypeNode_def)
  qed
  note ids = dfs_inv_ids [OF inv]
  show d: "distinct (map pg_id (sorted_types st))" using inv by (rule dfs_inv_distinct)
  have sub: "t \<in> set types" if "t \<in> set (sorted_types st)" for t
  proof -
    from dfs_inv_sorted [OF inv that] obtain n where
      n: "map_of (typeMap st) (pg_id t) = Some n" "node_type n = t" by auto
    from sg have "map_option node_type (map_of (typeMap st) (pg_id t)) =
        map_option node_type (map_of ?tm0 (pg_id t))" by (simp add: same_graph_def)
    with n obtain n0 where n0: "map_of ?tm0 (pg_id t) = Some n0" "node_type n0 = t"
      by (cases "map_of ?tm0 (pg_id t)") auto
    from initial_typeMap_origin [OF n0(1)] n0(2) show ?thesis by (auto simp add: new_TypeNode_def)
  qed
  have sup: "t \<in> set (sorted_types st)" if "t \<in> set types" for t
  proof -
    from vis [OF that] ids have "pg_id t \<in> pg_id ` set (sorted_types st)" by simp
    then obtain t' where t': "t' \<in> set (sorted_types st)" "pg_id t' = pg_id t" by auto
    from sub [OF t'(1)] that t'(2) dist have "t' = t" by (auto simp add: distinct_map dest: inj_onD)
    with t' show ?thesis by simp
  qed
  from sub sup show eq: "set (sorted_types st) = set types" by blast
  show "appears_before D T (sorted_types st)"
    if T: "T \<in> set types" and D: "D \<in> set types"
      and ref: "pg_id D \<in> set (map attr_type_id (pg_attributes T))" and ne: "pg_id D \<noteq> pg_id T"
    for T D
  proof -
    from node [OF T] obtain n where n: "map_of (typeMap st) (pg_id T) = Some n" "visited n"
      "dependencies n = dependencies (new_TypeNode T)" by blast
    from ref ne have "pg_id D \<in> set (dependencies (new_TypeNode T))"
      by (simp add: new_TypeNode_def set_new_Set)
    with n have dep: "pg_id D \<in> set (dependencies n)" by simp
    from node [OF D] have "map_of (typeMap st) (pg_id D) \<noteq> None" by auto
    with inv n(1,2) dep have "appears_before (pg_id D) (pg_id T) (map pg_id (sorted_types st))"
      by (rule dfs_inv_topo)
    moreover from d have "inj_on pg_id (set (sorted_types st))" by (simp add: distinct_map)
    ultimately show ?thesis using D T eq by (auto intro: appears_before_map_inj)
  qed
qed

lemma sortTypesByDependency_permutation:
  assumes dist: "distinct (map pg_id types)"
    and res: "sortTypesByDependency types = Inr out"
  shows "mset out = mset types"
proof -
  from res obtain st where
    st: "visit_all (map fst (initial_typeMap types)) \<lparr>typeMap = initial_typeMap types, sorted_types = []\<rparr> = Inr st"
    and out: "out = filter (\<lambda>t. \<not> array_marked t) (sorted_types st) @ filter array_marked (sorted_types st)"
    by (rule sortTypesByDependency_Inr)
  note ord = dfs_order [OF dist st]
  let ?s = "sorted_types st"
  from ord(2) have ds: "distinct ?s" by (simp add: distinct_map)
  have "mset out = mset (filter (\<lambda>t. \<not> array_marked t) ?s) + mset (filter array_marked ?s)"
    by (simp add: out)
  also have "\<dots> = mset ?s" by (induction ?s) auto
  also have "\<dots> = mset types"
    using ord(1) ds dist by (simp add: set_eq_iff_mset_eq_distinct [symmetric] distinct_map)
  finally show ?thesis .
qed

lemma node_edges_iff:
  "(k, d) \<in> node_edges tm \<longleftrightarrow>
     d \<in> set (case map_option dependencies (map_of tm k) of None \<Rightarrow> [] | Some ds \<Rightarrow> ds) \<and>
     map_of tm d \<noteq> None"
  by (cases "map_of tm k") (auto simp add: node_edges_def)

lemma node_edges_same: "same_graph tm tm' \<Longrightarrow> node_edges tm' = node_edges tm"
proof -
  assume sg: "same_graph tm tm'"
  have "(k, d) \<in> node_edges tm' \<longleftrightarrow> (k, d) \<in> node_edges tm" for k d
  proof -
    from sg have "map_option dependencies (map_of tm' k) = map_option dependencies (map_of tm k)"
      by (simp add: same_graph_def)
    moreover have "(map_of tm' d \<noteq> None) = (map_of tm d \<noteq> None)"
      using same_graph_dom [OF sg, of d] by simp
    ultimately show ?thesis unfolding node_edges_iff by simp
  qed
  then show ?thesis by auto
qed

lemma names_cycle_same:
  assumes sg: "same_graph tm tm'" and nc: "names_cycle tm' S src e"
  shows "names_cycle tm S src e"
proof -
  from sg have "map_option node_type (map_of tm' m) = map_option node_type (map_of tm m)" for m
    by (simp add: same_graph_def)
  with nc show ?thesis
    unfolding names_cycle_def node_edges_same [OF sg] same_graph_dom [OF sg] by simp
qed

lemma names_cycle_step:
  assumes node: "map_of tm k = Some node" and d: "d \<in> set (dependencies node)"
    and nc: "names_cycle tm (insert k S) d e"
  shows "names_cycle tm S k e"
proof -
  from nc obtain m t where m: "map_option node_type (map_of tm m) = Some t"
    "e = CircularDependency (pg_name t)" "(d, m) \<in> (node_edges tm)\<^sup>*"
    "m \<in> insert k S \<or> (m, m) \<in> (node_edges tm)\<^sup>+" and dd: "map_of tm d \<noteq> None"
    by (auto simp add: names_cycle_def)
  from node d dd have "(k, d) \<in> node_edges tm" by (auto simp add: node_edges_def)
  then have km: "(k, m) \<in> (node_edges tm)\<^sup>+" using m(3) by (rule rtrancl_into_trancl2)
  then have km': "(k, m) \<in> (node_edges tm)\<^sup>*" by (rule trancl_into_rtrancl)
  from m(4) km have "m \<in> S \<or> (m, m) \<in> (node_edges tm)\<^sup>+" by auto
  with m(1,2) km' node show ?thesis unfolding names_cycle_def by blast
qed

lemma dfs_error:
  "dfs nodeId st = Inl e \<Longrightarrow> names_cycle (typeMap st) (stacked (typeMap st)) nodeId e"
  "dfs_dependencies deps st = Inl e \<Longrightarrow>
     \<exists>d \<in> set deps. names_cycle (typeMap st) (stacked (typeMap st)) d e"
proof (induction nodeId st and deps st rule: dfs_dfs_dependencies.induct)
  case (1 nodeId st)
  show ?case
  proof (cases "map_of (typeMap st) nodeId")
    case None
    with "1.prems" show ?thesis by (simp add: dfs_not_fresh)
  next
    case (Some node)
    show ?thesis
    proof (cases "inStack node")
      case True
      with Some "1.prems" have e: "e = CircularDependency (pg_name (node_type node))"
        by (simp add: dfs_not_fresh)
      from Some True have "nodeId \<in> stacked (typeMap st)" by (simp add: stacked_def)
      with Some e show ?thesis unfolding names_cycle_def by auto
    next
      case False
      note ns = this
      show ?thesis
      proof (cases "visited node")
        case True
        with ns Some "1.prems" show ?thesis by (simp add: dfs_not_fresh)
      next
        case False
        let ?tm1 = "AList.update nodeId (node\<lparr>inStack := True\<rparr>) (typeMap st)"
        let ?st1 = "st\<lparr>typeMap := ?tm1\<rparr>"
        from "1.prems" dfs_fresh [OF Some ns False]
        have err: "dfs_dependencies (dependencies node) ?st1 = Inl e"
          by (cases "dfs_dependencies (dependencies node) ?st1") auto
        from "1.IH" [OF Some ns False err] obtain d where
          d: "d \<in> set (dependencies node)" "names_cycle ?tm1 (stacked ?tm1) d e" by auto
        note ef = enter_facts [OF Some ns]
        from d(2) have "names_cycle ?tm1 (insert nodeId (stacked (typeMap st))) d e"
          by (simp add: ef(2))
        with ef(1) have "names_cycle (typeMap st) (insert nodeId (stacked (typeMap st))) d e"
          by (rule names_cycle_same)
        with Some d(1) show ?thesis by (rule names_cycle_step)
      qed
    qed
  qed
next
  case (2 st)
  then show ?case by simp
next
  case (3 depId rest st)
  show ?case
  proof (cases "dfs depId st")
    case (Inl e')
    with "3.prems" have "e' = e" by simp
    with Inl "3.IH"(1) show ?thesis by simp
  next
    case (Inr st1)
    with "3.prems" have rest: "dfs_dependencies rest st1 = Inl e" by simp
    from "3.IH"(2) [OF Inr rest] obtain d where
      d: "d \<in> set rest" "names_cycle (typeMap st1) (stacked (typeMap st1)) d e" by auto
    from dfs_frame_holds(1) [OF Inr] have sg: "same_graph (typeMap st) (typeMap st1)"
      and stk: "stacked (typeMap st1) = stacked (typeMap st)" by (simp_all add: dfs_frame_def)
    from sg d(2) have "names_cycle (typeMap st) (stacked (typeMap st)) d e"
      unfolding stk by (rule names_cycle_same)
    with d(1) show ?thesis by auto
  qed
qed

lemma visit_all_error:
  "visit_all ks st = Inl e \<Longrightarrow> set ks \<subseteq> fst ` set (typeMap st) \<Longrightarrow>
   \<exists>k \<in> set ks. names_cycle (typeMap st) (stacked (typeMap st)) k e"
proof (induction ks arbitrary: st)
  case Nil
  then show ?case by simp
next
  case (Cons k ks)
  from Cons.prems(2) have "k \<in> fst ` set (typeMap st)" by simp
  then obtain node where node: "map_of (typeMap st) k = Some node"
    by (cases "map_of (typeMap st) k") (auto simp add: map_of_eq_None_iff)
  have later: ?case if rest: "visit_all ks st1 = Inl e" and f: "dfs_frame st st1" for st1
  proof -
    from f have sg: "same_graph (typeMap st) (typeMap st1)"
      and stk: "stacked (typeMap st1) = stacked (typeMap st)" by (simp_all add: dfs_frame_def)
    from sg have "map fst (typeMap st1) = map fst (typeMap st)" by (simp add: same_graph_def)
    then have "fst ` set (typeMap st1) = fst ` set (typeMap st)" by (metis set_map)
    with Cons.prems(2) have "set ks \<subseteq> fst ` set (typeMap st1)" by simp
    from Cons.IH [OF rest this] obtain k' where
      k': "k' \<in> set ks" "names_cycle (typeMap st1) (stacked (typeMap st1)) k' e" by auto
    from sg k'(2) have "names_cycle (typeMap st) (stacked (typeMap st)) k' e"
      unfolding stk by (rule names_cycle_same)
    with k'(1) show ?thesis by auto
  qed
  show ?case
  proof (cases "visited node")
    case True
    with node Cons.prems(1) have "visit_all ks st = Inl e" by simp
    then show ?thesis using dfs_frame_refl by (rule later)
  next
    case False
    show ?thesis
    proof (cases "dfs k st")
      case (Inl e')
      with False node Cons.prems(1) have "e' = e" by simp
      with Inl dfs_error(1) [of k st e] show ?thesis by simp
    next
      case (Inr st1)
      with False node Cons.prems(1) have "visit_all ks st1 = Inl e" by simp
      then show ?thesis using dfs_frame_holds(1) [OF Inr] by (rule later)
    qed
  qed
qed

lemma initial_edges: "node_edges (initial_typeMap types) \<subseteq> depends_on types"
proof
  fix x assume "x \<in> node_edges (initial_typeMap types)"
  then obtain k d n where x: "x = (k, d)" and n: "map_of (initial_typeMap types) k = Some n"
    "d \<in> set (dependencies n)" "map_of (initial_typeMap types) d \<noteq> None"
    by (auto simp add: node_edges_def)
  from initial_typeMap_origin [OF n(1)] obtain T where
    T: "T \<in> set types" "pg_id T = k" "n = new_TypeNode T" by auto
  from n(3) obtain n' where "map_of (initial_typeMap types) d = Some n'" by auto
  from initial_typeMap_origin [OF this] obtain D where D: "D \<in> set types" "pg_id D = d" by auto
  from n(2) T(3) have "d \<in> set (map attr_type_id (pg_attributes T))" "d \<noteq> pg_id T"
    by (auto simp add: new_TypeNode_def set_new_Set)
  with T D x show "x \<in> depends_on types" unfolding depends_on_def by blast
qed

lemma sortTypesByDependency_error:
  assumes "sortTypesByDependency types = Inl e"
  shows "\<exists>T \<in> set types. e = CircularDependency (pg_name T) \<and> (pg_id T, pg_id T) \<in> (depends_on types)\<^sup>+"
proof -
  let ?tm0 = "initial_typeMap types"
  let ?st0 = "\<lparr>typeMap = ?tm0, sorted_types = []\<rparr>"
  from assms have "visit_all (map fst ?tm0) ?st0 = Inl e"
    by (cases "visit_all (map fst ?tm0) ?st0") (auto simp add: sortTypesByDependency_def Let_def)
  then have "\<exists>k \<in> set (map fst ?tm0). names_cycle (typeMap ?st0) (stacked (typeMap ?st0)) k e"
    by (rule visit_all_error) simp
  then obtain k where "names_cycle ?tm0 {} k e" by (auto simp add: initial_stacked)
  then obtain m t where m: "map_option node_type (map_of ?tm0 m) = Some t"
    "e = CircularDependency (pg_name t)" "(m, m) \<in> (node_edges ?tm0)\<^sup>+"
    by (auto simp add: names_cycle_def)
  from m(1) obtain n where n: "map_of ?tm0 m = Some n" "node_type n = t"
    by (cases "map_of ?tm0 m") auto
  from initial_typeMap_origin [OF n(1)] n(2) have t: "t \<in> set types" "pg_id t = m"
    by (auto simp add: new_TypeNode_def)
  from m(3) initial_edges [of types] have "(m, m) \<in> (depends_on types)\<^sup>+"
    by (rule trancl_mono)
  with t m(2) show ?thesis by auto
qed

text \<open>
  A list that \<open>sortTypesByDependency\<close> returns comes from a search that placed every
  dependency before its dependent, so the dependency relation of the input has no cycle;
  two types that reference each other make one.
\<close>

lemma appears_before_distinct_trans:
  "distinct xs \<Longrightarrow> appears_before a b xs \<Longrightarrow> appears_before b c xs \<Longrightarrow> appears_before a c xs"
  by (induction xs) (auto dest: appears_before_mem)

lemma depends_on_iff:
  "(a, b) \<in> depends_on types \<longleftrightarrow>
     (\<exists>T D. T \<in> set types \<and> D \<in> set types \<and> pg_id T = a \<and> pg_id D = b \<and>
        pg_id D \<in> set (map attr_type_id (pg_attributes T)) \<and> pg_id D \<noteq> pg_id T)"
  unfolding depends_on_def by blast

lemma sortTypesByDependency_acyclic:
  assumes dist: "distinct (map pg_id types)"
    and res: "sortTypesByDependency types = Inr out"
  shows "acyclic (depends_on types)"
proof -
  from res obtain st where
    st: "visit_all (map fst (initial_typeMap types)) \<lparr>typeMap = initial_typeMap types, sorted_types = []\<rparr> = Inr st"
    by (rule sortTypesByDependency_Inr)
  note ord = dfs_order [OF dist st]
  from ord(2) have ds: "distinct (sorted_types st)" by (simp add: distinct_map)
  from dist have inj: "inj_on pg_id (set types)" by (simp add: distinct_map)
  have path: "\<exists>T D. T \<in> set types \<and> D \<in> set types \<and> pg_id T = a \<and> pg_id D = b \<and>
      appears_before D T (sorted_types st)" if "(a, b) \<in> (depends_on types)\<^sup>+" for a b
    using that
  proof (induction rule: trancl_induct)
    case (base b)
    then obtain T D where 0: "T \<in> set types" "D \<in> set types" "pg_id T = a" "pg_id D = b"
      "pg_id D \<in> set (map attr_type_id (pg_attributes T))" "pg_id D \<noteq> pg_id T"
      unfolding depends_on_iff by blast
    from ord(3) [OF 0(1,2,5,6)] have "appears_before D T (sorted_types st)" .
    with 0(1-4) show ?case by blast
  next
    case (step b c)
    from step.IH obtain T D where 1: "T \<in> set types" "D \<in> set types" "pg_id T = a" "pg_id D = b"
      "appears_before D T (sorted_types st)" by blast
    from step.hyps(2) obtain T' D' where 2: "T' \<in> set types" "D' \<in> set types" "pg_id T' = b"
      "pg_id D' = c" "pg_id D' \<in> set (map attr_type_id (pg_attributes T'))" "pg_id D' \<noteq> pg_id T'"
      unfolding depends_on_iff by blast
    from ord(3) [OF 2(1,2,5,6)] have 3: "appears_before D' T' (sorted_types st)" .
    from inj 1(2,4) 2(1,3) have "T' = D" by (auto dest: inj_onD)
    with 3 have "appears_before D' D (sorted_types st)" by simp
    from appears_before_distinct_trans [OF ds this 1(5)]
    have "appears_before D' T (sorted_types st)" .
    with 1(1,3) 2(2,4) show ?case by blast
  qed
  show ?thesis
    unfolding acyclic_def
  proof (intro allI notI)
    fix a assume "(a, a) \<in> (depends_on types)\<^sup>+"
    from path [OF this] obtain T D where 1: "T \<in> set types" "D \<in> set types" "pg_id T = a"
      "pg_id D = a" "appears_before D T (sorted_types st)" by blast
    from inj 1(1-4) have "T = D" by (auto dest: inj_onD)
    with 1(5) have "appears_before T T (sorted_types st)" by simp
    with appears_before_distinct_asym [OF ds this] show False by simp
  qed
qed


lemma sortTypesByDependency_ordered:
  assumes dist: "distinct (map pg_id types)"
    and res: "sortTypesByDependency types = Inr out"
  shows "mset out = mset types \<and>
     (\<forall>T \<in> set types. \<forall>D \<in> set types.
        pg_id D \<in> set (map attr_type_id (pg_attributes T)) \<and> D \<noteq> T \<and>
        (array_marked T \<or> \<not> array_marked D) \<longrightarrow> appears_before D T out) \<and>
     (\<forall>A \<in> set types. \<forall>B \<in> set types.
        array_marked A \<and> \<not> array_marked B \<longrightarrow> appears_before B A out)"
proof -
  from res obtain st where
    st: "visit_all (map fst (initial_typeMap types)) \<lparr>typeMap = initial_typeMap types, sorted_types = []\<rparr> = Inr st"
    and out: "out = filter (\<lambda>t. \<not> array_marked t) (sorted_types st) @ filter array_marked (sorted_types st)"
    by (rule sortTypesByDependency_Inr)
  note ord = dfs_order [OF dist st]
  let ?s = "sorted_types st"
  have perm: "mset out = mset types" using dist res by (rule sortTypesByDependency_permutation)
  have topo: "appears_before D T out"
    if TD: "T \<in> set types" "D \<in> set types"
      "pg_id D \<in> set (map attr_type_id (pg_attributes T))" "D \<noteq> T"
      and marks: "array_marked T \<or> \<not> array_marked D" for T D
  proof -
    note that = TD
    from that dist have "pg_id D \<noteq> pg_id T" by (auto simp add: distinct_map dest: inj_onD)
    with that have ab: "appears_before D T ?s" by (auto intro: ord(3))
    from that ord(1) have mem: "D \<in> set ?s" "T \<in> set ?s" by simp_all
    consider "array_marked D" "array_marked T" | "\<not> array_marked D" "array_marked T"
      | "\<not> array_marked D" "\<not> array_marked T"
      using marks by blast
    then show ?thesis
    proof cases
      case 1
      with ab have "appears_before D T (filter array_marked ?s)" by (auto intro: appears_before_filter)
      then show ?thesis unfolding out by (rule appears_before_append2)
    next
      case 2
      with mem show ?thesis unfolding out by (auto intro!: appears_before_append)
    next
      case 3
      with ab have "appears_before D T (filter (\<lambda>t. \<not> array_marked t) ?s)"
        by (auto intro: appears_before_filter)
      then show ?thesis unfolding out by (rule appears_before_append1)
    qed
  qed
  have arr: "appears_before B A out"
    if "A \<in> set types" "B \<in> set types" "array_marked A" "\<not> array_marked B" for A B
    using that ord(1) unfolding out by (auto intro!: appears_before_append)
  from perm topo arr show ?thesis by blast
qed

text \<open>
  The order that \<open>sortTypesByDependency\<close> does establish. For a list of types with pairwise
  distinct ids whose dependency relation has no cycle it returns a list, a permutation of
  the input. In it a type \<open>D\<close> that a type \<open>T\<close> references through an attribute appears
  strictly before \<open>T\<close> when \<open>T\<close> is array-marked or \<open>D\<close> is not, and every array-marked type
  appears strictly after every type that is not array-marked.
\<close>

lemma sortTypesByDependency_order:
  assumes dist: "distinct (map pg_id types)"
    and acyc: "acyclic (depends_on types)"
  shows "\<exists>out. sortTypesByDependency types = Inr out \<and>
     mset out = mset types \<and>
     (\<forall>T \<in> set types. \<forall>D \<in> set types.
        pg_id D \<in> set (map attr_type_id (pg_attributes T)) \<and> D \<noteq> T \<and>
        (array_marked T \<or> \<not> array_marked D) \<longrightarrow> appears_before D T out) \<and>
     (\<forall>A \<in> set types. \<forall>B \<in> set types.
        array_marked A \<and> \<not> array_marked B \<longrightarrow> appears_before B A out)"
proof (cases "sortTypesByDependency types")
  case (Inl e)
  from sortTypesByDependency_error [OF Inl] obtain T where
    "T \<in> set types" "(pg_id T, pg_id T) \<in> (depends_on types)\<^sup>+" by blast
  with acyc show ?thesis by (simp add: acyclic_def)
next
  case (Inr out)
  from sortTypesByDependency_ordered [OF dist Inr] Inr show ?thesis by blast
qed

lemma sortTypesByDependency_order_example:
  "distinct (map pg_id [example_task, example_status_array, example_status]) \<and>
   acyclic (depends_on [example_task, example_status_array, example_status]) \<and>
   sortTypesByDependency [example_task, example_status_array, example_status] =
     Inr [example_status, example_task, example_status_array] \<and>
   mset [example_status, example_task, example_status_array] =
     mset [example_task, example_status_array, example_status] \<and>
   appears_before example_status example_task
     [example_status, example_task, example_status_array] \<and>
   appears_before example_status example_status_array
     [example_status, example_task, example_status_array]"
proof -
  have d: "distinct (map pg_id [example_task, example_status_array, example_status])"
    by (simp add: example_task_def example_status_array_def example_status_def)
  have "depends_on [example_task, example_status_array, example_status] \<subseteq> {(2, 1)}"
    unfolding depends_on_def
    by (auto simp add: example_task_def example_status_array_def example_status_def)
  moreover have "acyclic {(2::int, 1::int)}"
    by (simp add: acyclic_insert) (simp add: acyclic_def)
  ultimately have c: "acyclic (depends_on [example_task, example_status_array, example_status])"
    by (rule acyclic_subset [rotated])
  have r: "sortTypesByDependency [example_task, example_status_array, example_status] =
      Inr [example_status, example_task, example_status_array]"
    by code_simp
  from sortTypesByDependency_order [OF d c] r
  have th: "mset [example_status, example_task, example_status_array] =
        mset [example_task, example_status_array, example_status] \<and>
     (\<forall>T \<in> set [example_task, example_status_array, example_status].
      \<forall>D \<in> set [example_task, example_status_array, example_status].
        pg_id D \<in> set (map attr_type_id (pg_attributes T)) \<and> D \<noteq> T \<and>
        (array_marked T \<or> \<not> array_marked D) \<longrightarrow>
        appears_before D T [example_status, example_task, example_status_array]) \<and>
     (\<forall>A \<in> set [example_task, example_status_array, example_status].
      \<forall>B \<in> set [example_task, example_status_array, example_status].
        array_marked A \<and> \<not> array_marked B \<longrightarrow>
        appears_before B A [example_status, example_task, example_status_array])"
    by auto
  from th have p: "mset [example_status, example_task, example_status_array] =
      mset [example_task, example_status_array, example_status]" by (rule conjunct1)
  have m: "example_task \<in> set [example_task, example_status_array, example_status]"
    "example_status \<in> set [example_task, example_status_array, example_status]"
    "example_status_array \<in> set [example_task, example_status_array, example_status]"
    by simp_all
  have f: "pg_id example_status \<in> set (map attr_type_id (pg_attributes example_task)) \<and>
      example_status \<noteq> example_task \<and>
      (array_marked example_task \<or> \<not> array_marked example_status)"
    "array_marked example_status_array \<and> \<not> array_marked example_status"
    by (simp_all add: example_task_def example_status_def example_status_array_def
        array_marked_def startsWith_underscore_def)
  from th m(1,2) f(1) have a: "appears_before example_status example_task
      [example_status, example_task, example_status_array]" by blast
  from th m(2,3) f(2) have b: "appears_before example_status example_status_array
      [example_status, example_task, example_status_array]" by blast
  from d c r p a b show ?thesis by (intro conjI)
qed

text \<open>
  C1 fails. The claim has every referenced type before the type that references it, and
  so has the comment above the function, which says that it sorts
  \<^verbatim>\<open>ensuring that types referenced in attributes come before the types that reference them\<close>.
  The composite type \<open>tagged\<close> has an attribute of the array type \<open>_text\<close>; the search puts
  \<open>_text\<close> first, and the final sort then moves it behind \<open>tagged\<close>, so the referenced
  type does not appear before the type that references it. And the array type
  \<open>__legacy\<close>, given before its base type \<open>_legacy\<close>, stays before it: both names are
  array-marked, and the sort keeps their order, where the claim has every array-marked
  type after its base type.
\<close>

theorem sortTypesByDependency_arrays_last_breaks_order:
  "sortTypesByDependency [example_tagged, example_text_array] =
     Inr [example_tagged, example_text_array] \<and>
   pg_id example_text_array \<in> set (map attr_type_id (pg_attributes example_tagged)) \<and>
   example_text_array \<noteq> example_tagged \<and>
   \<not> appears_before example_text_array example_tagged [example_tagged, example_text_array] \<and>
   sortTypesByDependency [example_legacy_array, example_legacy] =
     Inr [example_legacy_array, example_legacy] \<and>
   pg_name example_legacy_array = CHR ''_'' # pg_name example_legacy \<and>
   \<not> appears_before example_legacy example_legacy_array [example_legacy_array, example_legacy]"
proof -
  have 1: "sortTypesByDependency [example_tagged, example_text_array] =
      Inr [example_tagged, example_text_array]" by code_simp
  have 2: "sortTypesByDependency [example_legacy_array, example_legacy] =
      Inr [example_legacy_array, example_legacy]" by code_simp
  have 3: "example_text_array \<noteq> example_tagged"
    by (simp add: example_text_array_def example_tagged_def)
  have 4: "example_legacy \<noteq> example_legacy_array"
    by (simp add: example_legacy_def example_legacy_array_def)
  have 5: "pg_id example_text_array \<in> set (map attr_type_id (pg_attributes example_tagged))"
    by (simp add: example_text_array_def example_tagged_def)
  have 6: "pg_name example_legacy_array = CHR ''_'' # pg_name example_legacy"
    by (simp add: example_legacy_def example_legacy_array_def)
  from 3 have 7: "\<not> appears_before example_text_array example_tagged [example_tagged, example_text_array]"
    by auto
  from 4 have 8: "\<not> appears_before example_legacy example_legacy_array [example_legacy_array, example_legacy]"
    by auto
  from 1 2 3 5 6 7 8 show ?thesis by (intro conjI)
qed

text \<open>
  Whenever the dependency relation of a list of types with pairwise distinct ids has a
  cycle, of any length, \<open>sortTypesByDependency\<close> throws the circular-dependency error.
\<close>

lemma sortTypesByDependency_cyclic:
  assumes dist: "distinct (map pg_id types)"
    and cyc: "\<not> acyclic (depends_on types)"
  shows "\<exists>T \<in> set types.
           sortTypesByDependency types = Inl (CircularDependency (pg_name T)) \<and>
           (pg_id T, pg_id T) \<in> (depends_on types)\<^sup>+"
proof (cases "sortTypesByDependency types")
  case (Inl e)
  with sortTypesByDependency_error [OF Inl] show ?thesis by auto
next
  case (Inr out)
  from sortTypesByDependency_acyclic [OF dist Inr] cyc show ?thesis by simp
qed

section \<open>Properties of the required types\<close>

declare collectDependencies.simps [simp del]

lemma collectDependencies_known:
  "typeId \<in> set ids \<Longrightarrow> collectDependencies byId byName typeId ids = ids"
  "map_of byId typeId = None \<Longrightarrow> collectDependencies byId byName typeId ids = ids"
  by (simp_all add: collectDependencies.simps)

lemma collectDependencies_new:
  assumes "typeId \<notin> set ids" "map_of byId typeId = Some t"
  shows "collectDependencies byId byName typeId ids =
     (let ids1 = collect_attributes byId byName (pg_attributes t) (ids @ [typeId])
      in case (if startsWith_underscore (pg_name t) then map_of byName (tl (pg_name t)) else None) of
           None \<Rightarrow> ids1
         | Some nonArrayType \<Rightarrow> collectDependencies byId byName (pg_id nonArrayType) ids1)"
  using assms by (simp add: collectDependencies.simps [of byId byName typeId ids] Let_def split: option.splits)

lemma collect_grows:
  "set ids \<subseteq> set (collectDependencies byId byName typeId ids)"
  "set ids \<subseteq> set (collect_attributes byId byName attrs ids)"
proof (induction byId byName typeId ids and byId byName attrs ids
       rule: collectDependencies_collect_attributes.induct)
  case (1 byId byName typeId ids)
  show ?case
  proof (cases "typeId \<in> set ids \<or> map_of byId typeId = None")
    case True
    then show ?thesis by (auto simp add: collectDependencies_known)
  next
    case False
    then obtain t where fresh: "typeId \<notin> set ids" and t: "map_of byId typeId = Some t" by auto
    let ?ids1 = "collect_attributes byId byName (pg_attributes t) (ids @ [typeId])"
    from "1.IH"(1) [OF fresh t] have a: "set ids \<subseteq> set ?ids1" by simp
    show ?thesis
    proof (cases "if startsWith_underscore (pg_name t) then map_of byName (tl (pg_name t)) else None")
      case None
      with a show ?thesis by (simp add: collectDependencies_new [OF fresh t])
    next
      case (Some b)
      then have arr: "startsWith_underscore (pg_name t)" and b: "map_of byName (tl (pg_name t)) = Some b"
        by (simp_all split: if_splits)
      from "1.IH"(2) [OF fresh t refl arr b]
      have "set ?ids1 \<subseteq> set (collectDependencies byId byName (pg_id b) ?ids1)" .
      with a Some show ?thesis by (auto simp add: collectDependencies_new [OF fresh t])
    qed
  qed
next
  case (2 byId byName ids)
  show ?case by simp
next
  case (3 byId byName attr attrs ids)
  then show ?case by auto
qed

lemma collect_distinct:
  "distinct ids \<Longrightarrow> distinct (collectDependencies byId byName typeId ids)"
  "distinct ids \<Longrightarrow> distinct (collect_attributes byId byName attrs ids)"
proof (induction byId byName typeId ids and byId byName attrs ids
       rule: collectDependencies_collect_attributes.induct)
  case (1 byId byName typeId ids)
  show ?case
  proof (cases "typeId \<in> set ids \<or> map_of byId typeId = None")
    case True
    with "1.prems" show ?thesis by (auto simp add: collectDependencies_known)
  next
    case False
    then obtain t where fresh: "typeId \<notin> set ids" and t: "map_of byId typeId = Some t" by auto
    let ?ids1 = "collect_attributes byId byName (pg_attributes t) (ids @ [typeId])"
    from "1.prems" fresh have "distinct (ids @ [typeId])" by simp
    with "1.IH"(1) [OF fresh t] have a: "distinct ?ids1" by simp
    show ?thesis
    proof (cases "if startsWith_underscore (pg_name t) then map_of byName (tl (pg_name t)) else None")
      case None
      with a show ?thesis by (simp add: collectDependencies_new [OF fresh t])
    next
      case (Some b)
      then have arr: "startsWith_underscore (pg_name t)" and b: "map_of byName (tl (pg_name t)) = Some b"
        by (simp_all split: if_splits)
      from "1.IH"(2) [OF fresh t refl arr b a]
      have "distinct (collectDependencies byId byName (pg_id b) ?ids1)" .
      with Some show ?thesis by (simp add: collectDependencies_new [OF fresh t])
    qed
  qed
next
  case (2 byId byName ids)
  then show ?case by simp
next
  case (3 byId byName attr attrs ids)
  then show ?case by simp
qed

lemma collect_sound:
  "set ids \<subseteq> required_closure byId byName D \<Longrightarrow>
   (map_of byId typeId \<noteq> None \<longrightarrow> typeId \<in> required_closure byId byName D) \<Longrightarrow>
   set (collectDependencies byId byName typeId ids) \<subseteq> required_closure byId byName D"
  "set ids \<subseteq> required_closure byId byName D \<Longrightarrow>
   (\<forall>a \<in> set attrs. map_of byId (attr_type_id a) \<noteq> None \<longrightarrow>
      attr_type_id a \<in> required_closure byId byName D) \<Longrightarrow>
   set (collect_attributes byId byName attrs ids) \<subseteq> required_closure byId byName D"
proof (induction byId byName typeId ids and byId byName attrs ids
       rule: collectDependencies_collect_attributes.induct)
  case (1 byId byName typeId ids)
  let ?C = "required_closure byId byName D"
  show ?case
  proof (cases "typeId \<in> set ids \<or> map_of byId typeId = None")
    case True
    with "1.prems" show ?thesis by (auto simp add: collectDependencies_known)
  next
    case False
    then obtain t where fresh: "typeId \<notin> set ids" and t: "map_of byId typeId = Some t" by auto
    let ?ids1 = "collect_attributes byId byName (pg_attributes t) (ids @ [typeId])"
    from "1.prems" t have inC: "typeId \<in> ?C" by simp
    with "1.prems"(1) have s1: "set (ids @ [typeId]) \<subseteq> ?C" by simp
    have attrs: "\<forall>a \<in> set (pg_attributes t). map_of byId (attr_type_id a) \<noteq> None \<longrightarrow> attr_type_id a \<in> ?C"
    proof (intro ballI impI)
      fix a assume "a \<in> set (pg_attributes t)" "map_of byId (attr_type_id a) \<noteq> None"
      with t have "references byId byName typeId (attr_type_id a)" by (auto simp add: references_def)
      with inC show "attr_type_id a \<in> ?C" by (rule required_closure.step)
    qed
    from "1.IH"(1) [OF fresh t s1 attrs] have a: "set ?ids1 \<subseteq> ?C" .
    show ?thesis
    proof (cases "if startsWith_underscore (pg_name t) then map_of byName (tl (pg_name t)) else None")
      case None
      with a show ?thesis by (simp add: collectDependencies_new [OF fresh t])
    next
      case (Some b)
      then have arr: "startsWith_underscore (pg_name t)" and b: "map_of byName (tl (pg_name t)) = Some b"
        by (simp_all split: if_splits)
      have "map_of byId (pg_id b) \<noteq> None \<longrightarrow> pg_id b \<in> ?C"
      proof
        assume "map_of byId (pg_id b) \<noteq> None"
        with t arr b have "references byId byName typeId (pg_id b)" by (simp add: references_def)
        with inC show "pg_id b \<in> ?C" by (rule required_closure.step)
      qed
      from "1.IH"(2) [OF fresh t refl arr b a this] Some show ?thesis
        by (simp add: collectDependencies_new [OF fresh t])
    qed
  qed
next
  case (2 byId byName ids)
  then show ?case by simp
next
  case (3 byId byName attr attrs ids)
  from "3.prems" have "set (collectDependencies byId byName (attr_type_id attr) ids) \<subseteq> required_closure byId byName D"
    by (intro "3.IH"(1)) simp_all
  with "3.prems"(2) show ?case by (simp add: "3.IH"(2))
qed


lemma successors_in_mono: "successors_in byId byName i ids \<Longrightarrow> set ids \<subseteq> set ids' \<Longrightarrow> successors_in byId byName i ids'"
  by (auto simp add: successors_in_def)

lemma collect_complete:
  "(map_of byId typeId \<noteq> None \<longrightarrow> typeId \<in> set (collectDependencies byId byName typeId ids)) \<and>
   (\<forall>i \<in> set (collectDependencies byId byName typeId ids) - set ids.
      successors_in byId byName i (collectDependencies byId byName typeId ids))"
  "(\<forall>a \<in> set attrs. map_of byId (attr_type_id a) \<noteq> None \<longrightarrow>
      attr_type_id a \<in> set (collect_attributes byId byName attrs ids)) \<and>
   (\<forall>i \<in> set (collect_attributes byId byName attrs ids) - set ids.
      successors_in byId byName i (collect_attributes byId byName attrs ids))"
proof (induction byId byName typeId ids and byId byName attrs ids
       rule: collectDependencies_collect_attributes.induct)
  case (1 byId byName typeId ids)
  show ?case
  proof (cases "typeId \<in> set ids \<or> map_of byId typeId = None")
    case True
    then show ?thesis by (auto simp add: collectDependencies_known)
  next
    case False
    then obtain t where fresh: "typeId \<notin> set ids" and t: "map_of byId typeId = Some t" by auto
    let ?ids1 = "collect_attributes byId byName (pg_attributes t) (ids @ [typeId])"
    let ?R = "collectDependencies byId byName typeId ids"
    note ih1 = "1.IH"(1) [OF fresh t]
    have g1: "set (ids @ [typeId]) \<subseteq> set ?ids1" by (rule collect_grows(2))
    show ?thesis
    proof (cases "if startsWith_underscore (pg_name t) then map_of byName (tl (pg_name t)) else None")
      case None
      then have R: "?R = ?ids1" by (simp add: collectDependencies_new [OF fresh t])
      have self: "successors_in byId byName typeId ?ids1"
        unfolding successors_in_def
      proof (intro allI impI)
        fix j assume "references byId byName typeId j"
        with t None have "j \<in> set (map attr_type_id (pg_attributes t))" "map_of byId j \<noteq> None"
          by (auto simp add: references_def split: if_splits)
        with ih1 show "j \<in> set ?ids1" by auto
      qed
      have "\<forall>i \<in> set ?ids1 - set ids. successors_in byId byName i ?ids1"
      proof
        fix i assume "i \<in> set ?ids1 - set ids"
        then consider "i = typeId" | "i \<in> set ?ids1 - set (ids @ [typeId])" by auto
        then show "successors_in byId byName i ?ids1"
        proof cases
          case 1
          with self show ?thesis by simp
        next
          case 2
          with ih1 show ?thesis by blast
        qed
      qed
      with g1 show ?thesis unfolding R by auto
    next
      case (Some b)
      then have arr: "startsWith_underscore (pg_name t)" and b: "map_of byName (tl (pg_name t)) = Some b"
        by (simp_all split: if_splits)
      let ?S = "collectDependencies byId byName (pg_id b) ?ids1"
      from Some have R: "?R = ?S" by (simp add: collectDependencies_new [OF fresh t])
      note ih2 = "1.IH"(2) [OF fresh t refl arr b]
      have g2: "set ?ids1 \<subseteq> set ?S" by (rule collect_grows(1))
      have self: "successors_in byId byName typeId ?S"
        unfolding successors_in_def
      proof (intro allI impI)
        fix j assume "references byId byName typeId j"
        with t b have j: "map_of byId j \<noteq> None"
          "j \<in> set (map attr_type_id (pg_attributes t)) \<or> j = pg_id b"
          by (auto simp add: references_def)
        from j(2) show "j \<in> set ?S"
        proof
          assume "j \<in> set (map attr_type_id (pg_attributes t))"
          with ih1 j(1) have "j \<in> set ?ids1" by auto
          with g2 show ?thesis by auto
        next
          assume "j = pg_id b"
          with ih2 j(1) show ?thesis by simp
        qed
      qed
      have "\<forall>i \<in> set ?S - set ids. successors_in byId byName i ?S"
      proof
        fix i assume "i \<in> set ?S - set ids"
        then consider "i = typeId" | "i \<in> set ?ids1 - set (ids @ [typeId])" | "i \<in> set ?S - set ?ids1"
          by auto
        then show "successors_in byId byName i ?S"
        proof cases
          case 1
          with self show ?thesis by simp
        next
          case 2
          with ih1 have "successors_in byId byName i ?ids1" by blast
          then show ?thesis using g2 by (rule successors_in_mono)
        next
          case 3
          with ih2 show ?thesis by blast
        qed
      qed
      moreover from g1 g2 have "typeId \<in> set ?S" by auto
      ultimately show ?thesis unfolding R by simp
    qed
  qed
next
  case (2 byId byName ids)
  show ?case by simp
next
  case (3 byId byName attr attrs ids)
  let ?Q = "collectDependencies byId byName (attr_type_id attr) ids"
  let ?R = "collect_attributes byId byName attrs ?Q"
  have g: "set ?Q \<subseteq> set ?R" by (rule collect_grows(2))
  have a: "\<forall>a \<in> set (attr # attrs). map_of byId (attr_type_id a) \<noteq> None \<longrightarrow> attr_type_id a \<in> set ?R"
    using "3.IH"(1) "3.IH"(2) g by auto
  have "\<forall>i \<in> set ?R - set ids. successors_in byId byName i ?R"
  proof
    fix i assume "i \<in> set ?R - set ids"
    then consider "i \<in> set ?Q - set ids" | "i \<in> set ?R - set ?Q" by auto
    then show "successors_in byId byName i ?R"
    proof cases
      case 1
      with "3.IH"(1) have "successors_in byId byName i ?Q" by blast
      then show ?thesis using g by (rule successors_in_mono)
    next
      case 2
      with "3.IH"(2) show ?thesis by blast
    qed
  qed
  with a show ?case by simp
qed

text \<open>The loop over the direct ids.\<close>

lemma collect_all_grows:
  "set ids \<subseteq> set (foldl (\<lambda>ids typeId. collectDependencies byId byName typeId ids) ids ds)"
proof (induction ds arbitrary: ids)
  case Nil
  show ?case by simp
next
  case (Cons d ds)
  have "set ids \<subseteq> set (collectDependencies byId byName d ids)" by (rule collect_grows(1))
  with Cons.IH [of "collectDependencies byId byName d ids"] show ?case by auto
qed

lemma collect_all_distinct:
  "distinct ids \<Longrightarrow> distinct (foldl (\<lambda>ids typeId. collectDependencies byId byName typeId ids) ids ds)"
  by (induction ds arbitrary: ids) (simp_all add: collect_distinct(1))

lemma collect_all_sound:
  "set ids \<subseteq> required_closure byId byName D \<Longrightarrow> set ds \<subseteq> D \<Longrightarrow>
   set (foldl (\<lambda>ids typeId. collectDependencies byId byName typeId ids) ids ds)
     \<subseteq> required_closure byId byName D"
proof (induction ds arbitrary: ids)
  case Nil
  then show ?case by simp
next
  case (Cons d ds)
  from Cons.prems(2) have "map_of byId d \<noteq> None \<longrightarrow> d \<in> required_closure byId byName D"
    by (auto intro: required_closure.direct)
  with Cons.prems(1) have "set (collectDependencies byId byName d ids) \<subseteq> required_closure byId byName D"
    by (rule collect_sound(1))
  with Cons.prems(2) show ?case by (simp add: Cons.IH)
qed

lemma collect_all_complete:
  "(\<forall>d \<in> set ds. map_of byId d \<noteq> None \<longrightarrow>
      d \<in> set (foldl (\<lambda>ids typeId. collectDependencies byId byName typeId ids) ids ds)) \<and>
   (\<forall>i \<in> set (foldl (\<lambda>ids typeId. collectDependencies byId byName typeId ids) ids ds) - set ids.
      successors_in byId byName i (foldl (\<lambda>ids typeId. collectDependencies byId byName typeId ids) ids ds))"
proof (induction ds arbitrary: ids)
  case Nil
  show ?case by simp
next
  case (Cons d ds)
  let ?Q = "collectDependencies byId byName d ids"
  let ?R = "foldl (\<lambda>ids typeId. collectDependencies byId byName typeId ids) ?Q ds"
  note c = collect_complete(1) [of byId d byName ids]
  note ih = Cons.IH [of ?Q]
  have g: "set ?Q \<subseteq> set ?R" by (rule collect_all_grows)
  have a: "\<forall>d' \<in> set (d # ds). map_of byId d' \<noteq> None \<longrightarrow> d' \<in> set ?R"
    using c ih g by auto
  have "\<forall>i \<in> set ?R - set ids. successors_in byId byName i ?R"
  proof
    fix i assume "i \<in> set ?R - set ids"
    then consider "i \<in> set ?Q - set ids" | "i \<in> set ?R - set ?Q" by auto
    then show "successors_in byId byName i ?R"
    proof cases
      case 1
      with c have "successors_in byId byName i ?Q" by blast
      then show ?thesis using g by (rule successors_in_mono)
    next
      case 2
      with ih show ?thesis by blast
    qed
  qed
  with a show ?case by simp
qed

lemma collect_all_closure:
  "set (foldl (\<lambda>ids typeId. collectDependencies byId byName typeId ids) [] ds) =
   required_closure byId byName (set ds)"
proof
  show "set (foldl (\<lambda>ids typeId. collectDependencies byId byName typeId ids) [] ds)
      \<subseteq> required_closure byId byName (set ds)"
    by (rule collect_all_sound) simp_all
next
  let ?R = "foldl (\<lambda>ids typeId. collectDependencies byId byName typeId ids) [] ds"
  note c = collect_all_complete [of ds byId byName "[]"]
  show "required_closure byId byName (set ds) \<subseteq> set ?R"
  proof
    fix i assume "i \<in> required_closure byId byName (set ds)"
    then show "i \<in> set ?R"
    proof (induction rule: required_closure.induct)
      case (direct i)
      with c show ?case by blast
    next
      case (step i j)
      from c step.IH have "successors_in byId byName i ?R" by simp
      with step.hyps(2) show ?case by (simp add: successors_in_def)
    qed
  qed
qed

text \<open>The direct ids.\<close>

lemma directTypeIds_set:
  "set (directTypeIds byName columns ids) = set ids \<union> direct_references byName columns"
proof (induction columns arbitrary: ids)
  case Nil
  show ?case by (simp add: direct_references_def)
next
  case (Cons c cs)
  have split: "direct_references byName (c # cs) =
      direct_references byName [c] \<union> direct_references byName cs"
    by (auto simp add: direct_references_def)
  have one: "direct_references byName [c] =
      (case map_of byName (col_format c) of Some t \<Rightarrow> {pg_id t} | None \<Rightarrow> {}) \<union>
      (case (if startsWith_underscore (col_format c) then map_of byName (tl (col_format c)) else None) of
         Some t \<Rightarrow> {pg_id t} | None \<Rightarrow> {})"
    by (auto simp add: direct_references_def split: option.splits if_splits)
  show ?case
    unfolding split one
    by (auto simp add: Cons.IH Let_def set_Set_add split: option.splits if_splits)
qed

lemma new_Map_origin:
  "map_of (new_Map entries) k = Some v \<Longrightarrow> (k, v) \<in> set entries"
  using foldl_update_origin [of fst snd "[]" entries k v] by (auto simp add: new_Map_def)

lemma new_Map_keys: "fst ` set (new_Map entries) = fst ` set entries"
  using foldl_update_keys [of fst snd "[]" entries] by (simp add: new_Map_def)

lemma typesById_origin:
  "map_of (typesById allTypes) k = Some t \<Longrightarrow> t \<in> set allTypes \<and> pg_id t = k"
  by (auto simp add: typesById_def dest!: new_Map_origin)

lemma required_closure_known:
  "i \<in> required_closure byId byName D \<Longrightarrow> map_of byId i \<noteq> None"
  by (induction rule: required_closure.induct) (auto simp add: references_def)

lemma allRequiredTypeIds_closure:
  "set (allRequiredTypeIds allTypes columns) =
     required_closure (typesById allTypes) (typesByName allTypes)
       (direct_references (typesByName allTypes) columns)"
  "distinct (allRequiredTypeIds allTypes columns)"
  by (simp_all add: allRequiredTypeIds_def collect_all_closure directTypeIds_set collect_all_distinct)

lemma lookup_required_types:
  assumes "\<forall>i \<in> set ids. map_of (typesById allTypes) i \<noteq> None"
  shows "\<exists>ts. map_throwing (lookup_required (typesById allTypes)) ids = Inr ts \<and>
           map pg_id ts = ids \<and> set ts \<subseteq> set allTypes \<and>
           (\<forall>t \<in> set ts. map_of (typesById allTypes) (pg_id t) = Some t)"
  using assms
proof (induction ids)
  case Nil
  show ?case by simp
next
  case (Cons i ids)
  then obtain ts where ts: "map_throwing (lookup_required (typesById allTypes)) ids = Inr ts"
    "map pg_id ts = ids" "set ts \<subseteq> set allTypes"
    "\<forall>t \<in> set ts. map_of (typesById allTypes) (pg_id t) = Some t" by auto
  from Cons.prems obtain t where t: "map_of (typesById allTypes) i = Some t" by auto
  from typesById_origin [OF t] have o: "t \<in> set allTypes" "pg_id t = i" by simp_all
  from t have l: "lookup_required (typesById allTypes) i = Inr t" by (simp add: lookup_required_def)
  have "map_throwing (lookup_required (typesById allTypes)) (i # ids) = Inr (t # ts)"
    by (simp add: l ts(1))
  moreover have "map pg_id (t # ts) = i # ids" using o ts(2) by simp
  moreover have "set (t # ts) \<subseteq> set allTypes" using o ts(3) by simp
  moreover have "\<forall>t' \<in> set (t # ts). map_of (typesById allTypes) (pg_id t') = Some t'"
    using o t ts(4) by simp
  ultimately have "map_throwing (lookup_required (typesById allTypes)) (i # ids) = Inr (t # ts) \<and>
      map pg_id (t # ts) = i # ids \<and> set (t # ts) \<subseteq> set allTypes \<and>
      (\<forall>t' \<in> set (t # ts). map_of (typesById allTypes) (pg_id t') = Some t')"
    by (intro conjI)
  then show ?case by (rule exI)
qed

lemma getRequiredTypes_required:
  "\<exists>required.
     getRequiredTypes allTypes columns = sortTypesByDependency required \<and>
     distinct (map pg_id required) \<and>
     set required \<subseteq> set allTypes \<and>
     (\<forall>t \<in> set required. map_of (typesById allTypes) (pg_id t) = Some t) \<and>
     pg_id ` set required =
       required_closure (typesById allTypes) (typesByName allTypes)
         (direct_references (typesByName allTypes) columns)"
proof -
  let ?ids = "allRequiredTypeIds allTypes columns"
  note c = allRequiredTypeIds_closure [of allTypes columns]
  from c(1) have "\<forall>i \<in> set ?ids. map_of (typesById allTypes) i \<noteq> None"
    by (auto dest: required_closure_known)
  from lookup_required_types [OF this] obtain required where
    r: "map_throwing (lookup_required (typesById allTypes)) ?ids = Inr required"
    "map pg_id required = ?ids" "set required \<subseteq> set allTypes"
    "\<forall>t \<in> set required. map_of (typesById allTypes) (pg_id t) = Some t" by blast
  from r(1) have g: "getRequiredTypes allTypes columns = sortTypesByDependency required"
    by (simp add: getRequiredTypes_def)
  from r(2) c(2) have d: "distinct (map pg_id required)" by simp
  from r(2) have "pg_id ` set required = set ?ids" by (metis set_map)
  with c(1) have cl: "pg_id ` set required =
       required_closure (typesById allTypes) (typesByName allTypes)
         (direct_references (typesByName allTypes) columns)" by simp
  from g d r(3,4) cl show ?thesis by blast
qed

text \<open>
  C3. \<open>getRequiredTypes\<close> returns what \<open>sortTypesByDependency\<close> returns on a list
  \<open>required\<close> of types of the catalog, each the catalog's type under its id, with pairwise
  distinct ids, whose ids are exactly the required closure: the least set that holds the
  ids the columns' formats reference directly (for an array format also the id of the
  non-array base type) and is closed under attribute references and array-to-base
  references within the catalog. When it returns a list, the list is a permutation of
  \<open>required\<close>: no extraneous type and no missing one.
\<close>

theorem getRequiredTypes_closure:
  "\<exists>required.
     getRequiredTypes allTypes columns = sortTypesByDependency required \<and>
     distinct (map pg_id required) \<and>
     set required \<subseteq> set allTypes \<and>
     (\<forall>t \<in> set required. map_of (typesById allTypes) (pg_id t) = Some t) \<and>
     pg_id ` set required =
       required_closure (typesById allTypes) (typesByName allTypes)
         (direct_references (typesByName allTypes) columns) \<and>
     (\<forall>out. getRequiredTypes allTypes columns = Inr out \<longrightarrow> mset out = mset required)"
proof -
  from getRequiredTypes_required [of allTypes columns] obtain required where
    r: "getRequiredTypes allTypes columns = sortTypesByDependency required"
      "distinct (map pg_id required)" "set required \<subseteq> set allTypes"
      "\<forall>t \<in> set required. map_of (typesById allTypes) (pg_id t) = Some t"
      "pg_id ` set required =
         required_closure (typesById allTypes) (typesByName allTypes)
           (direct_references (typesByName allTypes) columns)" by blast
  have "\<forall>out. getRequiredTypes allTypes columns = Inr out \<longrightarrow> mset out = mset required"
    using r(1,2) by (auto intro: sortTypesByDependency_permutation)
  with r show ?thesis by blast
qed

theorem getRequiredTypes_closure_witness:
  "getRequiredTypes example_catalog [example_task_column, example_quantity_column] =
     Inr [example_status, example_task, example_int4] \<and>
   required_closure (typesById example_catalog) (typesByName example_catalog)
     (direct_references (typesByName example_catalog) [example_task_column, example_quantity_column]) =
     pg_id ` set [example_status, example_task, example_int4]"
proof -
  have r: "getRequiredTypes example_catalog [example_task_column, example_quantity_column] =
     Inr [example_status, example_task, example_int4]" by code_simp
  from getRequiredTypes_closure [of example_catalog "[example_task_column, example_quantity_column]"]
  obtain required where
    q: "pg_id ` set required =
       required_closure (typesById example_catalog) (typesByName example_catalog)
         (direct_references (typesByName example_catalog) [example_task_column, example_quantity_column])"
    "\<forall>out. getRequiredTypes example_catalog [example_task_column, example_quantity_column] = Inr out \<longrightarrow>
       mset out = mset required" by blast
  from q(2) r have "mset [example_status, example_task, example_int4] = mset required" by blast
  then have "set [example_status, example_task, example_int4] = set required" by (rule mset_eq_setD)
  with q(1) r show ?thesis by simp
qed












text \<open>
  A column whose format names no type, and whose format without a leading underscore
  names none either, adds nothing to the direct ids.
\<close>

lemma directTypeIds_unknown_format:
  "map_of byName (col_format c) = None \<Longrightarrow>
   (startsWith_underscore (col_format c) \<longrightarrow> map_of byName (tl (col_format c)) = None) \<Longrightarrow>
   directTypeIds byName (c # cs) ids = directTypeIds byName cs ids"
  by (simp add: Let_def)

text \<open>
  C6 fails in both revisions. With the catalog holding only \<open>int4\<close> and a table with the
  columns \<open>quantity\<close> of format \<open>int4\<close> and \<open>email\<close> of format \<open>citext\<close>, the required types
  are \<open>int4\<close> alone, as the claim says, and the registry built from them has no entry for
  \<open>citext\<close>. Rendering the column then reads \<open>ptdMap['citext'][1]\<close> and throws a TypeError:
  no fallback type is supplied, in \<open>buildDartTypeFromPostgresColumn\<close> of \<^verbatim>\<open>part_000\<close> as in the
  direct read of \<^verbatim>\<open>dart.ts\<close>.
\<close>

theorem unknown_format_throws:
  "getRequiredTypes [example_int4] [example_quantity_column, example_citext_column] =
     Inr [example_int4] \<and>
   register_types buildDartTypeFromPostgresType_part_000 [example_int4] [] = Inr example_registry \<and>
   buildDartTypeFromPostgresColumn example_quantity_column example_registry False =
     Inr (BuiltinDartType ''int'') \<and>
   buildDartTypeFromPostgresColumn example_citext_column example_registry False = Inl TypeError \<and>
   column_type_dart_ts example_citext_column example_registry = Inl TypeError"
  by code_simp

end
